theory Spec2Isabelle
  imports Main
begin

section \<open>The tutorial server: segmenter, catalog and page cache\<close>

text \<open>
  A shallow embedding of \<^verbatim>\<open>main.go\<close>. Go strings are byte sequences, modelled as
  \<^typ>\<open>string\<close>. A nil slice and an empty slice are both the empty list, a nil pointer is
  \<^term>\<open>None\<close>, and a panic is the left injection of a sum type.
\<close>

subsection \<open>Panics\<close>

datatype error =
    NilDeref
  | SliceBounds
  | ReadError string
  | TemplateError string
  | HighlightError string

subsection \<open>The functions of package \<^verbatim>\<open>strings\<close> that the program calls\<close>

text \<open>\<^verbatim>\<open>strings.HasPrefix\<close>, \<^verbatim>\<open>strings.HasSuffix\<close> and \<^verbatim>\<open>strings.TrimPrefix\<close>, bytewise.\<close>

definition HasPrefix :: "string \<Rightarrow> string \<Rightarrow> bool" where
  "HasPrefix s p = (length p \<le> length s \<and> take (length p) s = p)"

definition HasSuffix :: "string \<Rightarrow> string \<Rightarrow> bool" where
  "HasSuffix s p = (length p \<le> length s \<and> drop (length s - length p) s = p)"

definition TrimPrefix :: "string \<Rightarrow> string \<Rightarrow> string" where
  "TrimPrefix s p = (if HasPrefix s p then drop (length p) s else s)"

text \<open>
  \<^verbatim>\<open>strings.TrimSpace\<close> removes every leading and every trailing white-space rune.
  The white-space runes of \<^verbatim>\<open>unicode.IsSpace\<close> are listed here by their UTF-8 encodings:
  the six ASCII ones, U+0085, U+00A0, U+1680, U+2000 to U+200A, U+2028, U+2029, U+202F,
  U+205F and U+3000. A byte sequence that is not one of these encodings decodes to a rune
  that is not white space (an invalid byte decodes to U+FFFD), and trimming stops there.
\<close>

definition spaceRunes :: "string list" where
  "spaceRunes =
    [[CHR 0x09], [CHR 0x0A], [CHR 0x0B], [CHR 0x0C], [CHR 0x0D], [CHR 0x20],
     [CHR 0xC2, CHR 0x85], [CHR 0xC2, CHR 0xA0],
     [CHR 0xE1, CHR 0x9A, CHR 0x80],
     [CHR 0xE2, CHR 0x80, CHR 0x80], [CHR 0xE2, CHR 0x80, CHR 0x81],
     [CHR 0xE2, CHR 0x80, CHR 0x82], [CHR 0xE2, CHR 0x80, CHR 0x83],
     [CHR 0xE2, CHR 0x80, CHR 0x84], [CHR 0xE2, CHR 0x80, CHR 0x85],
     [CHR 0xE2, CHR 0x80, CHR 0x86], [CHR 0xE2, CHR 0x80, CHR 0x87],
     [CHR 0xE2, CHR 0x80, CHR 0x88], [CHR 0xE2, CHR 0x80, CHR 0x89],
     [CHR 0xE2, CHR 0x80, CHR 0x8A],
     [CHR 0xE2, CHR 0x80, CHR 0xA8], [CHR 0xE2, CHR 0x80, CHR 0xA9],
     [CHR 0xE2, CHR 0x80, CHR 0xAF],
     [CHR 0xE2, CHR 0x81, CHR 0x9F],
     [CHR 0xE3, CHR 0x80, CHR 0x80]]"

definition leadingSpace :: "string \<Rightarrow> nat" where
  "leadingSpace s = (case find (HasPrefix s) spaceRunes of None \<Rightarrow> 0 | Some p \<Rightarrow> length p)"

definition trailingSpace :: "string \<Rightarrow> nat" where
  "trailingSpace s = (case find (HasSuffix s) spaceRunes of None \<Rightarrow> 0 | Some p \<Rightarrow> length p)"

function TrimLeftSpace :: "string \<Rightarrow> string" where
  "TrimLeftSpace s =
     (if leadingSpace s = 0 then s else TrimLeftSpace (drop (leadingSpace s) s))"
  by pat_completeness auto
termination
proof (relation "measure length")
  show "wf (measure length)" by simp
next
  fix s :: string
  assume "leadingSpace s \<noteq> 0"
  moreover have "leadingSpace [] = 0"
    by (simp add: leadingSpace_def spaceRunes_def HasPrefix_def)
  ultimately have "s \<noteq> []" by auto
  with \<open>leadingSpace s \<noteq> 0\<close> show "(drop (leadingSpace s) s, s) \<in> measure length"
    by simp
qed

function TrimRightSpace :: "string \<Rightarrow> string" where
  "TrimRightSpace s =
     (if trailingSpace s = 0 then s
      else TrimRightSpace (take (length s - trailingSpace s) s))"
  by pat_completeness auto
termination
proof (relation "measure length")
  show "wf (measure length)" by simp
next
  fix s :: string
  assume "trailingSpace s \<noteq> 0"
  moreover have "trailingSpace [] = 0"
    by (simp add: trailingSpace_def spaceRunes_def HasSuffix_def)
  ultimately have "s \<noteq> []" by auto
  with \<open>trailingSpace s \<noteq> 0\<close>
  show "(take (length s - trailingSpace s) s, s) \<in> measure length"
    by simp
qed

declare TrimLeftSpace.simps [simp del]
declare TrimRightSpace.simps [simp del]

definition TrimSpace :: "string \<Rightarrow> string" where
  "TrimSpace s = TrimRightSpace (TrimLeftSpace s)"

text \<open>
  \<^verbatim>\<open>strings.Split(s, sep)\<close> and \<^verbatim>\<open>strings.ReplaceAll(s, old, new)\<close> for a separator and
  an old text of one byte \<open>c\<close>, which is how the program calls them
  (\<^verbatim>\<open>"\n"\<close>, \<^verbatim>\<open>"\t"\<close> and \<^verbatim>\<open>"-"\<close>). Splitting the empty string gives one empty
  piece.
\<close>

fun Split :: "string \<Rightarrow> char \<Rightarrow> string list" where
  "Split [] c = [[]]"
| "Split (x # xs) c =
     (if x = c then [] # Split xs c
      else (case Split xs c of [] \<Rightarrow> [[x]] | l # ls \<Rightarrow> (x # l) # ls))"

definition ReplaceAll :: "string \<Rightarrow> char \<Rightarrow> string \<Rightarrow> string" where
  "ReplaceAll s c new = concat (map (\<lambda>x. if x = c then new else [x]) s)"

subsection \<open>Line classification\<close>

definition ltNone :: int where "ltNone = - 1"
definition ltCode :: int where "ltCode = 0"
definition ltDoc :: int where "ltDoc = 1"
definition ltBlank :: int where "ltBlank = 2"

text \<open>
  \<^verbatim>\<open>checkLineType\<close> returns the pair \<open>(doc, lt)\<close>. The named result \<open>lt\<close> starts at
  zero, which is \<^term>\<open>ltCode\<close>, and keeps that value when no branch assigns it.
\<close>

definition checkLineType :: "string \<Rightarrow> string \<times> int" where
  "checkLineType line =
     (let doc = TrimSpace line in
      if HasPrefix doc ''//'' then (TrimPrefix (drop 2 doc) '' '', ltDoc)
      else if HasPrefix doc ''#'' then (''##'' @ doc, ltDoc)
      else if doc = [] then (doc, ltBlank)
      else (doc, 0))"

subsection \<open>Segments\<close>

record Seg =
  Docs :: "string list"
  Code :: "string list"
  DocsRendered :: string
  CodeRendered :: string
  CodeForJs :: string
  CodeLeading :: bool
  CodeRun :: bool

text \<open>The composite literals \<^verbatim>\<open>&Seg{Docs: ...}\<close> and \<^verbatim>\<open>&Seg{Code: ...}\<close>: every other field is zero.\<close>

definition newSeg :: "string list \<Rightarrow> string list \<Rightarrow> Seg" where
  "newSeg ds cs =
     \<lparr>Docs = ds, Code = cs, DocsRendered = [], CodeRendered = [], CodeForJs = [],
      CodeLeading = False, CodeRun = False\<rparr>"

text \<open>
  The state of the loop of \<^verbatim>\<open>parseSegs\<close>. The segments live in \<open>segs\<close> in the order
  they were allocated; the pointer \<open>lastSeg\<close> is nil or the position in \<open>segs\<close> of the
  segment it points to, so that a write through the pointer is a write into \<open>segs\<close>.
\<close>

record pstate =
  segs :: "Seg list"
  lastSeg :: "nat option"
  lastSeen :: int

definition initState :: pstate where
  "initState = \<lparr>segs = [], lastSeg = None, lastSeen = ltNone\<rparr>"

text \<open>One iteration of the loop. Dereferencing a nil \<open>lastSeg\<close> panics.\<close>

definition parseStep :: "pstate \<Rightarrow> string \<Rightarrow> error + pstate" where
  "parseStep st line =
     (let (trimmed, lt) = checkLineType line in
      if lt = ltDoc \<or> (lt = ltBlank \<and> lastSeen st = ltDoc) then
        (if lastSeen st = ltDoc then
           (case lastSeg st of
              None \<Rightarrow> Inl NilDeref
            | Some k \<Rightarrow>
                Inr (st\<lparr>segs := (segs st)[k := (segs st ! k)\<lparr>Docs := Docs (segs st ! k) @ [trimmed]\<rparr>],
                        lastSeen := ltDoc\<rparr>))
         else
           Inr (st\<lparr>segs := segs st @ [newSeg [trimmed] []],
                   lastSeg := Some (length (segs st)),
                   lastSeen := ltDoc\<rparr>))
      else if lt = ltCode \<or> lastSeen st = ltCode then
        (case lastSeg st of
           Some k \<Rightarrow>
             Inr (st\<lparr>segs := (segs st)[k := (segs st ! k)\<lparr>Code := Code (segs st ! k) @ [line]\<rparr>],
                     lastSeen := ltCode\<rparr>)
         | None \<Rightarrow>
             Inr (st\<lparr>segs := segs st @ [newSeg [] [line]],
                     lastSeg := Some (length (segs st)),
                     lastSeen := ltCode\<rparr>))
      else Inr st)"

fun parseLoop :: "pstate \<Rightarrow> string list \<Rightarrow> error + pstate" where
  "parseLoop st [] = Inr st"
| "parseLoop st (line # rest) =
     (case parseStep st line of Inl e \<Rightarrow> Inl e | Inr st' \<Rightarrow> parseLoop st' rest)"

text \<open>The first loop of \<^verbatim>\<open>parseSegs\<close>: tabs become four spaces.\<close>

definition tabsToSpaces :: "string \<Rightarrow> string" where
  "tabsToSpaces line = ReplaceAll line (CHR 0x09) ''    ''"

definition expandTabs :: "string list \<Rightarrow> string list" where
  "expandTabs source = map tabsToSpaces source"

definition parseLines :: "string list \<Rightarrow> error + Seg list" where
  "parseLines source =
     (case parseLoop initState (expandTabs source) of
        Inl e \<Rightarrow> Inl e
      | Inr st \<Rightarrow> Inr (segs st))"

definition parseSegs :: "string \<Rightarrow> error + Seg list" where
  "parseSegs filecontent = parseLines (Split filecontent CHR ''\<newline>'')"

text \<open>
  The kind and the doc text that \<^verbatim>\<open>parseSegs\<close> gives a line of the source: those of
  \<^verbatim>\<open>checkLineType\<close> on the line with its tabs expanded.
\<close>

definition kindOf :: "string \<Rightarrow> int" where
  "kindOf line = snd (checkLineType (tabsToSpaces line))"

definition docOf :: "string \<Rightarrow> string" where
  "docOf line = fst (checkLineType (tabsToSpaces line))"

text \<open>
  What holds of the loop's state before every iteration: \<open>lastSeg\<close> points to the newest
  segment, \<open>lastSeen\<close> is \<^term>\<open>ltNone\<close> exactly while there is no segment, it is never
  \<^term>\<open>ltBlank\<close>, and a segment whose doc run is still open has no code yet.
\<close>

definition wfState :: "pstate \<Rightarrow> bool" where
  "wfState st =
     (lastSeg st = (if segs st = [] then None else Some (length (segs st) - 1)) \<and>
      ((lastSeen st = ltNone) = (segs st = [])) \<and>
      (lastSeen st = ltNone \<or> lastSeen st = ltDoc \<or> lastSeen st = ltCode) \<and>
      (if lastSeen st = ltDoc then Code (last (segs st)) = [] else True))"

text \<open>The newest segment with \<open>ws\<close> added to its doc-lines and \<open>vs\<close> to its code-lines.\<close>

definition extendLast :: "Seg list \<Rightarrow> string list \<Rightarrow> string list \<Rightarrow> Seg list" where
  "extendLast ss ws vs =
     butlast ss @ [(last ss)\<lparr>Docs := Docs (last ss) @ ws, Code := Code (last ss) @ vs\<rparr>]"

subsection \<open>Joining\<close>

text \<open>
  \<^verbatim>\<open>stringJoin\<close>, the program's own join. The buffer is the text written so far;
  \<^verbatim>\<open>b.Grow(n)\<close> reserves capacity and writes nothing, so the count \<open>n\<close> is left out.
  The nil result for no element is the empty byte sequence.
\<close>

fun writeAll :: "string \<Rightarrow> string \<Rightarrow> string list \<Rightarrow> string" where
  "writeAll b sep [] = b"
| "writeAll b sep (s # rest) = writeAll ((b @ sep) @ s) sep rest"

definition stringJoin :: "string list \<Rightarrow> string \<Rightarrow> string" where
  "stringJoin elems sep =
     (if length elems = 0 then []
      else if length elems = 1 then elems ! 0
      else writeAll (elems ! 0) sep (drop 1 elems))"

text \<open>
  \<^verbatim>\<open>strings.Join\<close> of the standard library, by what it is documented to return: the
  elements in order with the separator between each two neighbours.
\<close>

fun strings_Join :: "string list \<Rightarrow> string \<Rightarrow> string" where
  "strings_Join [] sep = []"
| "strings_Join [x] sep = x"
| "strings_Join (x # y # ys) sep = x @ sep @ strings_Join (y # ys) sep"

subsection \<open>The catalog\<close>

record exampleCache =
  data :: string

text \<open>
  An \<^verbatim>\<open>exampleIndex\<close> lives in a store of descriptors, a list in which an address is a
  position. \<open>Prev\<close> and \<open>Next\<close> are nil or the address of a neighbour; \<open>cache\<close> is nil or
  the artifact, which nothing changes once it is built.
\<close>

record exampleIndex =
  Path :: string
  Name :: string
  Title :: string
  Prev :: "nat option"
  Next :: "nat option"
  cache :: "exampleCache option"

text \<open>The shared state: the store and the global map \<^verbatim>\<open>exampleIndexes\<close>.\<close>

record gstate =
  heap :: "exampleIndex list"
  exampleIndexes :: "string \<rightharpoonup> nat"

text \<open>
  \<^verbatim>\<open>strings.ToLower\<close>. A text of ASCII bytes only has its letters A to Z mapped to a to z.
  Any other text goes through the Unicode case tables of the standard library, which are
  the parameter \<open>unicodeLower\<close>.
\<close>

definition lowerASCII :: "char \<Rightarrow> char" where
  "lowerASCII c =
     (if of_char CHR ''A'' \<le> (of_char c :: nat) \<and> (of_char c :: nat) \<le> of_char CHR ''Z''
      then char_of (of_char c + (32 :: nat)) else c)"

definition ToLower :: "(string \<Rightarrow> string) \<Rightarrow> string \<Rightarrow> string" where
  "ToLower unicodeLower s =
     (if list_all (\<lambda>c. (of_char c :: nat) < 128) s then map lowerASCII s else unicodeLower s)"

text \<open>The local variables of the loop of \<^verbatim>\<open>renderIndex\<close>.\<close>

record ilocals =
  examples :: "nat option list"
  indexes :: "string \<rightharpoonup> nat"
  prev :: "nat option"

text \<open>The composite literal of the loop body: \<open>Prev\<close>, \<open>Next\<close> and \<open>cache\<close> start nil.\<close>

definition newIndex :: "(string \<Rightarrow> string) \<Rightarrow> string \<Rightarrow> exampleIndex" where
  "newIndex unicodeLower name =
     (let title = drop 3 name in
      \<lparr>Path = ''/'' @ ToLower unicodeLower title,
       Name = name,
       Title = ReplaceAll title CHR ''-'' '' '',
       Prev = None, Next = None, cache = None\<rparr>)"

text \<open>
  The loop over \<open>tutorial\<close>, from position \<open>i\<close>. The new descriptor gets the next free
  address. \<^verbatim>\<open>name[3:]\<close> panics on a name shorter than three bytes, and a write to
  \<open>examples\<close> outside its length would panic too.
\<close>

fun indexLoop ::
  "(string \<Rightarrow> string) \<Rightarrow> string list \<Rightarrow> nat \<Rightarrow> exampleIndex list \<times> ilocals \<Rightarrow>
     error + exampleIndex list \<times> ilocals" where
  "indexLoop unicodeLower [] i (h, l) = Inr (h, l)"
| "indexLoop unicodeLower (name # rest) i (h, l) =
     (if length name < 3 then Inl SliceBounds
      else if length (examples l) \<le> i then Inl SliceBounds
      else
        let idx = length h;
            h1 = h @ [newIndex unicodeLower name];
            l1 = l\<lparr>examples := (examples l)[i := Some idx],
                   indexes := (indexes l)(Path (h1 ! idx) \<mapsto> idx)\<rparr>;
            h2 = (case prev l1 of
                    Some p \<Rightarrow> h1[p := (h1 ! p)\<lparr>Next := Some idx\<rparr>]
                  | None \<Rightarrow> h1);
            h3 = h2[idx := (h2 ! idx)\<lparr>Prev := prev l1\<rparr>]
        in indexLoop unicodeLower rest (Suc i) (h3, l1\<lparr>prev := Some idx\<rparr>))"

text \<open>Lines 99 to 116 of \<^verbatim>\<open>renderIndex\<close>: the declarations and the loop.\<close>

definition buildCatalog ::
  "(string \<Rightarrow> string) \<Rightarrow> string list \<Rightarrow> exampleIndex list \<Rightarrow>
     error + exampleIndex list \<times> ilocals" where
  "buildCatalog unicodeLower tutorial h =
     indexLoop unicodeLower tutorial 0
       (h, \<lparr>examples = replicate (length tutorial) None, indexes = Map.empty, prev = None\<rparr>)"

text \<open>The \<open>i\<close>-th descriptor of the catalog: the object that \<open>examples[i]\<close> points to.\<close>

definition descriptor :: "exampleIndex list \<Rightarrow> ilocals \<Rightarrow> nat \<Rightarrow> exampleIndex" where
  "descriptor h l i = h ! the (examples l ! i)"

text \<open>
  The descriptors that the loop leaves in the store for the names \<open>rest\<close>, when the first
  of them gets the address \<open>a\<close> and \<open>p\<close> is the descriptor before it: a closed form that
  the loop is proved to compute.
\<close>

fun linked :: "(string \<Rightarrow> string) \<Rightarrow> nat \<Rightarrow> nat option \<Rightarrow> string list \<Rightarrow> exampleIndex list" where
  "linked f a p [] = []"
| "linked f a p (name # rest) =
     (newIndex f name)\<lparr>Prev := p, Next := (if rest = [] then None else Some (Suc a))\<rparr>
       # linked f (Suc a) (Some a) rest"

definition setNext :: "exampleIndex list \<Rightarrow> nat option \<Rightarrow> nat \<Rightarrow> exampleIndex list" where
  "setNext h p a = (case p of Some q \<Rightarrow> h[q := (h ! q)\<lparr>Next := Some a\<rparr>] | None \<Rightarrow> h)"

text \<open>
  What the program takes from outside: the file system, the markdown renderer, the
  highlighter and the templates. A failure there is an error that \<^verbatim>\<open>check\<close> turns into
  a panic. A template reads the descriptors it is given through the store.
\<close>

record exampleFile =
  Segs :: "Seg list"
  GoCode :: string

record example =
  exampleIndex :: nat
  Files :: "exampleFile list"

record extern =
  readFile :: "string \<Rightarrow> error + string"
  readDir :: "string \<Rightarrow> error + string list"
  filepath_Join :: "string \<Rightarrow> string \<Rightarrow> string"
  blackfriday_Run :: "string \<Rightarrow> string"
  highlight :: "string \<Rightarrow> string \<Rightarrow> error + string"
  exampleTmpl_Execute :: "exampleIndex list \<Rightarrow> example \<Rightarrow> error + string"
  indexTmpl :: "error + (exampleIndex list \<Rightarrow> nat option list \<Rightarrow> error + string)"
  unicode_ToLower :: "string \<Rightarrow> string"

text \<open>
  \<^verbatim>\<open>renderIndex\<close>. The template is read and parsed first (\<open>indexTmpl\<close>, an error when
  that fails). The global map is assigned before the template runs, so a panic of the
  template leaves it assigned.
\<close>

definition renderIndex :: "extern \<Rightarrow> string list \<Rightarrow> gstate \<Rightarrow> (error + string) \<times> gstate" where
  "renderIndex env tutorial st =
     (case indexTmpl env of
        Inl e \<Rightarrow> (Inl e, st)
      | Inr execute \<Rightarrow>
          (case buildCatalog (unicode_ToLower env) tutorial (heap st) of
             Inl e \<Rightarrow> (Inl e, st)
           | Inr (h, l) \<Rightarrow>
               (execute h (examples l), \<lparr>heap = h, exampleIndexes = indexes l\<rparr>)))"

subsection \<open>Rendering the segments of a file\<close>

definition mustReadFile :: "extern \<Rightarrow> string \<Rightarrow> error + string" where
  "mustReadFile env path = readFile env path"

definition goFileSuffixes :: "string list" where
  "goFileSuffixes = [''.gop'', ''.go'']"

fun hasAnySuffix :: "string \<Rightarrow> string list \<Rightarrow> bool" where
  "hasAnySuffix sourcePath [] = False"
| "hasAnySuffix sourcePath (suffix # rest) =
     (if HasSuffix sourcePath suffix then True else hasAnySuffix sourcePath rest)"

definition isGopFile :: "string \<Rightarrow> bool" where
  "isGopFile sourcePath = hasAnySuffix sourcePath goFileSuffixes"

definition markdown :: "extern \<Rightarrow> string list \<Rightarrow> string" where
  "markdown env docs = blackfriday_Run env (stringJoin docs ''\<newline>'')"

text \<open>
  \<^verbatim>\<open>chromaFormat\<close>: a path ending in \<^verbatim>\<open>.gop\<close> is highlighted as \<^verbatim>\<open>main.go\<close>; choosing
  the lexer and the style, tokenising and formatting are \<open>highlight\<close>.
\<close>

definition chromaFormat :: "extern \<Rightarrow> string \<Rightarrow> string \<Rightarrow> error + string" where
  "chromaFormat env code filePath =
     highlight env code (if HasSuffix filePath ''.gop'' then ''main.go'' else filePath)"

text \<open>The body of the loop of \<^verbatim>\<open>parseAndRenderSegs\<close>, and the loop.\<close>

definition renderSeg :: "extern \<Rightarrow> string \<Rightarrow> Seg \<Rightarrow> error + Seg" where
  "renderSeg env sourcePath seg =
     (let seg1 = (if Docs seg \<noteq> [] then seg\<lparr>DocsRendered := markdown env (Docs seg)\<rparr> else seg) in
      if Code seg1 \<noteq> [] then
        (let seg2 = seg1\<lparr>CodeForJs := strings_Join (Code seg1) ''\<newline>''\<rparr> in
         case chromaFormat env (CodeForJs seg2) sourcePath of
           Inl e \<Rightarrow> Inl e
         | Inr rendered \<Rightarrow> Inr (seg2\<lparr>CodeRendered := rendered\<rparr>))
      else Inr seg1)"

fun renderSegs :: "extern \<Rightarrow> string \<Rightarrow> Seg list \<Rightarrow> error + Seg list" where
  "renderSegs env sourcePath [] = Inr []"
| "renderSegs env sourcePath (seg # rest) =
     (case renderSeg env sourcePath seg of
        Inl e \<Rightarrow> Inl e
      | Inr seg' \<Rightarrow>
          (case renderSegs env sourcePath rest of
             Inl e \<Rightarrow> Inl e
           | Inr rest' \<Rightarrow> Inr (seg' # rest')))"

definition parseAndRenderSegs :: "extern \<Rightarrow> string \<Rightarrow> error + Seg list \<times> string" where
  "parseAndRenderSegs env sourcePath =
     (case mustReadFile env sourcePath of
        Inl e \<Rightarrow> Inl e
      | Inr filecontent \<Rightarrow>
          (case parseSegs filecontent of
             Inl e \<Rightarrow> Inl e
           | Inr parsed \<Rightarrow>
               (case renderSegs env sourcePath parsed of
                  Inl e \<Rightarrow> Inl e
                | Inr rendered \<Rightarrow>
                    Inr (rendered, if \<not> isGopFile sourcePath then [] else filecontent))))"

subsection \<open>Building and caching a page\<close>

fun parseFiles :: "extern \<Rightarrow> string \<Rightarrow> string list \<Rightarrow> error + exampleFile list" where
  "parseFiles env dir [] = Inr []"
| "parseFiles env dir (fi # rest) =
     (case parseAndRenderSegs env (filepath_Join env dir fi) of
        Inl e \<Rightarrow> Inl e
      | Inr (sourceSegs, filecontents) \<Rightarrow>
          (let file = \<lparr>Segs = sourceSegs, GoCode = []\<rparr>;
               file' = (if filecontents \<noteq> [] then file\<lparr>GoCode := filecontents\<rparr> else file)
           in case parseFiles env dir rest of
                Inl e \<Rightarrow> Inl e
              | Inr files \<Rightarrow> Inr (file' # files)))"

definition parseExample :: "extern \<Rightarrow> string \<Rightarrow> nat \<Rightarrow> error + example" where
  "parseExample env dir idx =
     (case readDir env dir of
        Inl e \<Rightarrow> Inl e
      | Inr fis \<Rightarrow>
          (case parseFiles env dir fis of
             Inl e \<Rightarrow> Inl e
           | Inr files \<Rightarrow> Inr \<lparr>exampleIndex = idx, Files = files\<rparr>))"

definition renderExample :: "extern \<Rightarrow> exampleIndex list \<Rightarrow> example \<Rightarrow> error + string" where
  "renderExample env h e = exampleTmpl_Execute env h e"

definition buildExampleCache ::
  "extern \<Rightarrow> exampleIndex list \<Rightarrow> string \<Rightarrow> nat \<Rightarrow> error + exampleCache" where
  "buildExampleCache env h dir idx =
     (case parseExample env dir idx of
        Inl e \<Rightarrow> Inl e
      | Inr example \<Rightarrow>
          (case renderExample env h example of
             Inl e \<Rightarrow> Inl e
           | Inr d \<Rightarrow> Inr \<lparr>data = d\<rparr>))"

text \<open>
  \<^verbatim>\<open>handleExample\<close>, one request served from start to end with no other request in
  between. The answer is what the handler does with the response writer: it writes a
  payload, serves the not-found file, or panics before it writes anything. The environment
  is an argument of each call, since the files may differ from one request to the next.
\<close>

datatype response = Written string | ServedFile string | Panicked error

definition handleExample :: "extern \<Rightarrow> string \<Rightarrow> string \<Rightarrow> gstate \<Rightarrow> response \<times> gstate" where
  "handleExample env root path st =
     (case exampleIndexes st path of
        Some idx \<Rightarrow>
          (case cache (heap st ! idx) of
             None \<Rightarrow>
               (case buildExampleCache env (heap st)
                       (filepath_Join env root (Name (heap st ! idx))) idx of
                  Inl e \<Rightarrow> (Panicked e, st)
                | Inr c \<Rightarrow>
                    (Written (data c),
                     st\<lparr>heap := (heap st)[idx := (heap st ! idx)\<lparr>cache := Some c\<rparr>]\<rparr>))
           | Some c \<Rightarrow> (Written (data c), st))
      | None \<Rightarrow> (ServedFile ''./public/404.html'', st))"

text \<open>Every pointer in the global map points into the store.\<close>

definition wfCatalog :: "gstate \<Rightarrow> bool" where
  "wfCatalog st = (\<forall>p a. exampleIndexes st p = Some a \<longrightarrow> a < length (heap st))"

subsection \<open>Sample environments\<close>

text \<open>
  An environment for concrete runs: every file has the content \<open>content\<close>, every directory
  the one file \<^verbatim>\<open>main.gop\<close>, the renderers return their input, and the page template
  returns the retained code of the files. In \<open>brokenEnv\<close> no directory can be read.
\<close>

definition textEnv :: "string \<Rightarrow> extern" where
  "textEnv content =
     \<lparr>readFile = (\<lambda>p. Inr content),
      readDir = (\<lambda>d. Inr [''main.gop'']),
      filepath_Join = (\<lambda>d n. d @ ''/'' @ n),
      blackfriday_Run = (\<lambda>t. t),
      highlight = (\<lambda>code p. Inr code),
      exampleTmpl_Execute = (\<lambda>h e. Inr (concat (map GoCode (Files e)))),
      indexTmpl = Inr (\<lambda>h es. Inr (concat (map Title h))),
      unicode_ToLower = (\<lambda>s. s)\<rparr>"

definition brokenEnv :: extern where
  "brokenEnv = (textEnv [])\<lparr>readDir := (\<lambda>d. Inl (ReadError d))\<rparr>"

text \<open>A catalog of one descriptor, not built yet.\<close>

definition sampleState :: gstate where
  "sampleState =
     \<lparr>heap = [\<lparr>Path = ''/channels'', Name = ''05-Channels'', Title = ''Channels'',
               Prev = None, Next = None, cache = None\<rparr>],
      exampleIndexes = [''/channels'' \<mapsto> 0]\<rparr>"

subsection \<open>Handlers that run at the same time\<close>

text \<open>
  The server runs one handler for each request, and the handlers run concurrently.
  \<^verbatim>\<open>handleExample\<close> touches the shared state at two places only: the atomic load of the
  descriptor's \<open>cache\<close> and, when it loaded nil, the atomic store of the artifact it has
  built; the build lies between the two and takes no lock. So a handler advances in
  steps, and the steps of different handlers interleave:
  \<^item> \<open>Arrived path\<close>: nothing done yet; the next step looks the path up and loads the
    pointer. A descriptor that is built is answered at once from the artifact loaded.
  \<^item> \<open>Loaded idx\<close>: the pointer was nil; the next step builds the page, in the
    environment of that moment, and panics when the build fails.
  \<^item> \<open>Built idx c\<close>: the artifact \<open>c\<close> is built; the next step stores it and writes its
    payload (the local one, not a pointer loaded again).
  \<^item> \<open>Finished r\<close>: the handler has ended with the answer \<open>r\<close>.
\<close>

datatype hstate = Arrived string | Loaded nat | Built nat exampleCache | Finished response

definition hLoad :: "string \<Rightarrow> gstate \<Rightarrow> hstate" where
  "hLoad path st =
     (case exampleIndexes st path of
        Some idx \<Rightarrow>
          (case cache (heap st ! idx) of
             None \<Rightarrow> Loaded idx
           | Some c \<Rightarrow> Finished (Written (data c)))
      | None \<Rightarrow> Finished (ServedFile ''./public/404.html''))"

definition hBuild :: "extern \<Rightarrow> string \<Rightarrow> nat \<Rightarrow> gstate \<Rightarrow> hstate" where
  "hBuild env root idx st =
     (case buildExampleCache env (heap st) (filepath_Join env root (Name (heap st ! idx))) idx of
        Inl e \<Rightarrow> Finished (Panicked e)
      | Inr c \<Rightarrow> Built idx c)"

definition hStore :: "nat \<Rightarrow> exampleCache \<Rightarrow> gstate \<Rightarrow> hstate \<times> gstate" where
  "hStore idx c st =
     (Finished (Written (data c)),
      st\<lparr>heap := (heap st)[idx := (heap st ! idx)\<lparr>cache := Some c\<rparr>]\<rparr>)"

definition hStep :: "extern \<Rightarrow> string \<Rightarrow> hstate \<Rightarrow> gstate \<Rightarrow> hstate \<times> gstate" where
  "hStep env root h st =
     (case h of
        Arrived path \<Rightarrow> (hLoad path st, st)
      | Loaded idx \<Rightarrow> (hBuild env root idx st, st)
      | Built idx c \<Rightarrow> hStore idx c st
      | Finished r \<Rightarrow> (Finished r, st))"

text \<open>
  A schedule names, step by step, the handler that advances and the environment it finds.
  The handlers are a list; the requests still to come are its \<open>Arrived\<close> entries. A
  schedule that names no handler of the list at some step does nothing there.
\<close>

fun runHandlers ::
  "string \<Rightarrow> (nat \<times> extern) list \<Rightarrow> hstate list \<times> gstate \<Rightarrow> hstate list \<times> gstate" where
  "runHandlers root [] (ths, st) = (ths, st)"
| "runHandlers root ((t, env) # sched) (ths, st) =
     (if t < length ths then
        (case hStep env root (ths ! t) st of
           (h, st') \<Rightarrow> runHandlers root sched (ths[t := h], st'))
      else runHandlers root sched (ths, st))"




section \<open>Joining\<close>

lemma writeAll_strings_Join:
  "writeAll b sep (y # ys) = b @ sep @ strings_Join (y # ys) sep"
proof (induction ys arbitrary: b y)
  case Nil
  show ?case by simp
next
  case (Cons z zs)
  have "writeAll b sep (y # z # zs) = writeAll ((b @ sep) @ y) sep (z # zs)"
    by simp
  also have "\<dots> = ((b @ sep) @ y) @ sep @ strings_Join (z # zs) sep"
    by (rule Cons.IH)
  finally show ?case by simp
qed

text \<open>
  Claim C10. For every list of strings and every separator, the program's own
  \<^verbatim>\<open>stringJoin\<close> returns the bytes that \<^verbatim>\<open>strings.Join\<close> returns. The doc-lines are
  joined by the first (in \<^verbatim>\<open>markdown\<close>) and the code-lines by the second (in
  \<^verbatim>\<open>parseAndRenderSegs\<close>), so both join in the same way.
\<close>

theorem stringJoin_eq_strings_Join: "stringJoin elems sep = strings_Join elems sep"
proof (cases elems)
  case Nil
  then show ?thesis by (simp add: stringJoin_def)
next
  case (Cons x xs)
  show ?thesis
  proof (cases xs)
    case Nil
    with \<open>elems = x # xs\<close> show ?thesis by (simp add: stringJoin_def)
  next
    case (Cons y ys)
    have "stringJoin (x # y # ys) sep = writeAll x sep (y # ys)"
      by (simp add: stringJoin_def)
    also have "\<dots> = x @ sep @ strings_Join (y # ys) sep"
      by (rule writeAll_strings_Join)
    finally show ?thesis using \<open>elems = x # xs\<close> Cons by simp
  qed
qed

section \<open>Line classification\<close>

lemma HasPrefix_hash_not_slashes: "HasPrefix doc ''#'' \<Longrightarrow> \<not> HasPrefix doc ''//''"
  by (cases doc) (auto simp: HasPrefix_def)

text \<open>
  Claim C4, as the code has it. For every line whose trimmed text starts with the heading
  marker \<^verbatim>\<open>#\<close> (such a text does not start with \<^verbatim>\<open>//\<close>), \<^verbatim>\<open>checkLineType\<close> returns the
  kind Doc and the trimmed text with \<^emph>\<open>two\<close> heading markers, \<^verbatim>\<open>##\<close>, put in front of
  it: the heading goes down by two levels.
\<close>

theorem checkLineType_heading:
  "HasPrefix (TrimSpace line) ''#'' \<Longrightarrow>
     checkLineType line = (''##'' @ TrimSpace line, ltDoc)"
  using HasPrefix_hash_not_slashes [of "TrimSpace line"]
  by (simp add: checkLineType_def Let_def)

theorem checkLineType_heading_witness:
  "HasPrefix (TrimSpace ''  # Slice foundations'') ''#'' \<and>
   checkLineType ''  # Slice foundations'' = (''### Slice foundations'', ltDoc)"
proof -
  have t: "TrimSpace ''  # Slice foundations'' = ''# Slice foundations''"
    by code_simp
  have h: "HasPrefix (TrimSpace ''  # Slice foundations'') ''#''"
    unfolding t by (simp add: HasPrefix_def)
  from checkLineType_heading [OF h] h show ?thesis
    by (simp add: t)
qed

text \<open>
  Claim C4 as it is written fails: for the line \<^verbatim>\<open># T\<close>, a heading that does not start
  with \<^verbatim>\<open>//\<close>, the content is \<^verbatim>\<open>### T\<close> and not \<^verbatim>\<open>## T\<close>, the trimmed text with one
  marker more.
\<close>

theorem checkLineType_heading_counterexample:
  "HasPrefix (TrimSpace ''# T'') ''#'' \<and> \<not> HasPrefix (TrimSpace ''# T'') ''//'' \<and>
   checkLineType ''# T'' = (''### T'', ltDoc) \<and>
   fst (checkLineType ''# T'') \<noteq> ''#'' @ TrimSpace ''# T''"
  by code_simp

section \<open>The segmenter\<close>

subsection \<open>Steps of the loop\<close>


lemma kind_cases:
  "snd (checkLineType l) = ltDoc \<or> snd (checkLineType l) = ltBlank \<or> snd (checkLineType l) = ltCode"
  by (simp add: checkLineType_def Let_def ltCode_def)

lemma blank_doc: "snd (checkLineType l) = ltBlank \<Longrightarrow> fst (checkLineType l) = []"
  by (simp add: checkLineType_def Let_def ltDoc_def ltBlank_def ltCode_def split: if_splits)

lemma lt_distinct:
  "ltDoc \<noteq> ltBlank" "ltDoc \<noteq> ltCode" "ltDoc \<noteq> ltNone" "ltBlank \<noteq> ltCode"
  "ltBlank \<noteq> ltNone" "ltCode \<noteq> ltNone"
  "ltBlank \<noteq> ltDoc" "ltCode \<noteq> ltDoc" "ltNone \<noteq> ltDoc" "ltCode \<noteq> ltBlank"
  "ltNone \<noteq> ltBlank" "ltNone \<noteq> ltCode"
  by (simp_all add: ltDoc_def ltBlank_def ltCode_def ltNone_def)

lemma update_last:
  "ss \<noteq> [] \<Longrightarrow> ss[length ss - Suc 0 := x] = butlast ss @ [x]"
  by (induction ss rule: rev_induct) (simp_all add: nth_append)

lemma nth_last: "ss \<noteq> [] \<Longrightarrow> ss ! (length ss - Suc 0) = last ss"
  by (simp add: last_conv_nth)

lemma wf_init: "wfState initState"
  by (simp add: wfState_def initState_def lt_distinct)

lemma step_doc_cont:
  assumes "wfState st" "lastSeen st = ltDoc"
    and "snd (checkLineType l) = ltDoc \<or> snd (checkLineType l) = ltBlank"
  shows "parseStep st l =
           Inr (st\<lparr>segs := extendLast (segs st) [fst (checkLineType l)] [], lastSeen := ltDoc\<rparr>)"
proof -
  from assms(1,2) have ne: "segs st \<noteq> []"
    by (auto simp: wfState_def lt_distinct)
  with assms(1) have ls: "lastSeg st = Some (length (segs st) - 1)"
    by (simp add: wfState_def)
  obtain t k where c: "checkLineType l = (t, k)" by (cases "checkLineType l")
  with assms(3) have k: "k = ltDoc \<or> k = ltBlank" by simp
  show ?thesis
    using k assms(2) ne
    by (auto simp: parseStep_def c ls extendLast_def update_last nth_last)
qed

lemma step_doc_new:
  assumes "lastSeen st \<noteq> ltDoc" "snd (checkLineType l) = ltDoc"
  shows "parseStep st l =
           Inr (st\<lparr>segs := segs st @ [newSeg [fst (checkLineType l)] []],
                   lastSeg := Some (length (segs st)), lastSeen := ltDoc\<rparr>)"
proof -
  obtain t k where c: "checkLineType l = (t, k)" by (cases "checkLineType l")
  with assms show ?thesis
    by (simp add: parseStep_def)
qed

lemma step_code_cont:
  assumes "wfState st" "segs st \<noteq> []"
    and "snd (checkLineType l) = ltCode \<or> (snd (checkLineType l) = ltBlank \<and> lastSeen st = ltCode)"
  shows "parseStep st l =
           Inr (st\<lparr>segs := extendLast (segs st) [] [l], lastSeen := ltCode\<rparr>)"
proof -
  from assms(1,2) have ls: "lastSeg st = Some (length (segs st) - 1)"
    by (simp add: wfState_def)
  obtain t k where c: "checkLineType l = (t, k)" by (cases "checkLineType l")
  show ?thesis
    using assms(2,3)
    by (auto simp: parseStep_def c ls extendLast_def update_last nth_last lt_distinct)
qed

lemma step_code_new:
  assumes "wfState st" "segs st = []" "snd (checkLineType l) = ltCode"
  shows "parseStep st l =
           Inr (st\<lparr>segs := [newSeg [] [l]], lastSeg := Some 0, lastSeen := ltCode\<rparr>)"
proof -
  from assms(1,2) have ls: "lastSeg st = None"
    by (simp add: wfState_def)
  obtain t k where c: "checkLineType l = (t, k)" by (cases "checkLineType l")
  show ?thesis
    using assms(2,3)
    by (auto simp: parseStep_def c ls lt_distinct)
qed

lemma step_blank_none:
  assumes "lastSeen st = ltNone" "snd (checkLineType l) = ltBlank"
  shows "parseStep st l = Inr st"
proof -
  obtain t k where c: "checkLineType l = (t, k)" by (cases "checkLineType l")
  show ?thesis
    using assms
    by (auto simp: parseStep_def c lt_distinct)
qed

lemma extendLast_ne [simp]: "extendLast ss ws vs \<noteq> []"
  by (simp add: extendLast_def)

lemma last_extendLast [simp]:
  "last (extendLast ss ws vs) = (last ss)\<lparr>Docs := Docs (last ss) @ ws, Code := Code (last ss) @ vs\<rparr>"
  by (simp add: extendLast_def)

lemma butlast_extendLast [simp]: "butlast (extendLast ss ws vs) = butlast ss"
  by (simp add: extendLast_def)

lemma length_extendLast [simp]: "ss \<noteq> [] \<Longrightarrow> length (extendLast ss ws vs) = length ss"
  by (simp add: extendLast_def)

lemma extendLast_extendLast [simp]:
  "extendLast (extendLast ss ws vs) ws' vs' = extendLast ss (ws @ ws') (vs @ vs')"
  by (simp add: extendLast_def)

lemma extendLast_nil [simp]: "ss \<noteq> [] \<Longrightarrow> extendLast ss [] [] = ss"
  by (simp add: extendLast_def)

lemma extendLast_single [simp]:
  "extendLast [x] ws vs = [x\<lparr>Docs := Docs x @ ws, Code := Code x @ vs\<rparr>]"
  by (simp add: extendLast_def)

lemma extendLast_Cons [simp]:
  "extendLast (x # y # ys) ws vs = x # extendLast (y # ys) ws vs"
  by (simp add: extendLast_def)

lemma extendLast_append [simp]:
  "ys \<noteq> [] \<Longrightarrow> extendLast (xs @ ys) ws vs = xs @ extendLast ys ws vs"
  by (simp add: extendLast_def butlast_append)

text \<open>Every step from a well-formed state succeeds, in one of four ways.\<close>

lemma step_cases:
  assumes wf: "wfState st"
  obtains
    (blank) "parseStep st l = Inr st" "segs st = []"
  | (doc_cont) t where "segs st \<noteq> []" "lastSeen st = ltDoc"
      "parseStep st l = Inr (st\<lparr>segs := extendLast (segs st) [t] [], lastSeen := ltDoc\<rparr>)"
  | (doc_new) t where "lastSeen st \<noteq> ltDoc"
      "parseStep st l = Inr (st\<lparr>segs := segs st @ [newSeg [t] []],
                   lastSeg := Some (length (segs st)), lastSeen := ltDoc\<rparr>)"
  | (code_cont) "segs st \<noteq> []"
      "parseStep st l = Inr (st\<lparr>segs := extendLast (segs st) [] [l], lastSeen := ltCode\<rparr>)"
  | (code_new) "segs st = []"
      "parseStep st l = Inr (st\<lparr>segs := [newSeg [] [l]], lastSeg := Some 0, lastSeen := ltCode\<rparr>)"
proof -
  consider (d) "snd (checkLineType l) = ltDoc" | (b) "snd (checkLineType l) = ltBlank"
    | (c) "snd (checkLineType l) = ltCode"
    using kind_cases by blast
  then show thesis
  proof cases
    case d
    show thesis
    proof (cases "lastSeen st = ltDoc")
      case True
      with wf have "segs st \<noteq> []" by (auto simp: wfState_def lt_distinct)
      with True d wf show thesis using doc_cont step_doc_cont by blast
    next
      case False
      with d show thesis using doc_new step_doc_new by blast
    qed
  next
    case b
    from wf consider "lastSeen st = ltNone" | "lastSeen st = ltDoc" | "lastSeen st = ltCode"
      by (auto simp: wfState_def)
    then show thesis
    proof cases
      case 1
      with wf have "segs st = []" by (simp add: wfState_def)
      with 1 b show thesis using blank step_blank_none by blast
    next
      case 2
      with wf have "segs st \<noteq> []" by (auto simp: wfState_def lt_distinct)
      with 2 b wf show thesis using doc_cont step_doc_cont by blast
    next
      case 3
      with wf have "segs st \<noteq> []" by (auto simp: wfState_def lt_distinct)
      with 3 b wf show thesis using code_cont step_code_cont by blast
    qed
  next
    case c
    show thesis
    proof (cases "segs st = []")
      case True
      with c wf show thesis using code_new step_code_new by blast
    next
      case False
      with c wf show thesis using code_cont step_code_cont by blast
    qed
  qed
qed

lemma step_wf:
  assumes "wfState st"
  shows "\<exists>st'. parseStep st l = Inr st' \<and> wfState st'"
  using assms
proof (cases rule: step_cases [where l = l])
  case blank
  with assms show ?thesis by simp
next
  case (doc_cont t)
  with assms show ?thesis
    by (auto simp: wfState_def lt_distinct)
next
  case (doc_new t)
  with assms show ?thesis by (auto simp: wfState_def lt_distinct newSeg_def)
next
  case code_cont
  with assms show ?thesis by (auto simp: wfState_def lt_distinct)
next
  case code_new
  with assms show ?thesis by (auto simp: wfState_def lt_distinct)
qed


lemma parseLoop_append:
  "parseLoop st (xs @ ys) =
     (case parseLoop st xs of Inl e \<Rightarrow> Inl e | Inr st' \<Rightarrow> parseLoop st' ys)"
  by (induction xs arbitrary: st) (auto split: sum.splits)

lemma parseLoop_append_Inr:
  "parseLoop st xs = Inr st2 \<Longrightarrow> parseLoop st (xs @ ys) = parseLoop st2 ys"
  by (simp add: parseLoop_append)

lemma loop_wf:
  "wfState st \<Longrightarrow> \<exists>st'. parseLoop st ls = Inr st' \<and> wfState st'"
proof (induction ls arbitrary: st)
  case Nil
  then show ?case by simp
next
  case (Cons l ls)
  from step_wf [OF Cons.prems, of l] obtain st1 where
    s: "parseStep st l = Inr st1" and w: "wfState st1" by blast
  from Cons.IH [OF w] s show ?case by simp
qed

text \<open>
  What the rest of the input can still do to the segments there are: nothing to any but
  the newest, which gets more doc-lines only while its doc run is open, and more
  code-lines; new segments follow.
\<close>

lemma loop_future:
  assumes "wfState st" "segs st \<noteq> []" "parseLoop st ls = Inr st'"
  shows "\<exists>ws vs new. segs st' = extendLast (segs st) ws vs @ new \<and>
           (lastSeen st = ltCode \<longrightarrow> ws = [])"
  using assms
proof (induction ls arbitrary: st)
  case Nil
  then have "segs st' = extendLast (segs st) [] [] @ []" by simp
  then show ?case by blast
next
  case (Cons l ls)
  from Cons.prems(1) show ?case
  proof (cases rule: step_cases [where l = l])
    case blank
    with Cons.prems show ?thesis by simp
  next
    case (doc_cont t)
    let ?st1 = "st\<lparr>segs := extendLast (segs st) [t] [], lastSeen := ltDoc\<rparr>"
    from step_wf [OF Cons.prems(1), of l] doc_cont have w: "wfState ?st1" by simp
    from Cons.prems(3) doc_cont have r: "parseLoop ?st1 ls = Inr st'" by simp
    from Cons.IH [OF w _ r] obtain ws vs new where
      "segs st' = extendLast (segs ?st1) ws vs @ new" by auto
    then have "segs st' = extendLast (segs st) (t # ws) vs @ new" by simp
    moreover from doc_cont have "lastSeen st \<noteq> ltCode" by (simp add: lt_distinct)
    ultimately show ?thesis by blast
  next
    case (doc_new t)
    let ?st1 = "st\<lparr>segs := segs st @ [newSeg [t] []],
                   lastSeg := Some (length (segs st)), lastSeen := ltDoc\<rparr>"
    from step_wf [OF Cons.prems(1), of l] doc_new have w: "wfState ?st1" by simp
    from Cons.prems(3) doc_new have r: "parseLoop ?st1 ls = Inr st'" by simp
    from Cons.IH [OF w _ r] obtain ws vs new where
      "segs st' = extendLast (segs ?st1) ws vs @ new" by auto
    with Cons.prems(2) have
      "segs st' = extendLast (segs st) [] [] @
         ((newSeg [t] [])\<lparr>Docs := Docs (newSeg [t] []) @ ws, Code := Code (newSeg [t] []) @ vs\<rparr> # new)"
      by simp
    then show ?thesis by blast
  next
    case code_cont
    let ?st1 = "st\<lparr>segs := extendLast (segs st) [] [l], lastSeen := ltCode\<rparr>"
    from step_wf [OF Cons.prems(1), of l] code_cont have w: "wfState ?st1" by simp
    from Cons.prems(3) code_cont have r: "parseLoop ?st1 ls = Inr st'" by simp
    from Cons.IH [OF w _ r] obtain ws vs new where
      "segs st' = extendLast (segs ?st1) ws vs @ new" and "ws = []" by auto
    then have "segs st' = extendLast (segs st) [] (l # vs) @ new" by simp
    then show ?thesis by blast
  next
    case code_new
    with Cons.prems show ?thesis by simp
  qed
qed

text \<open>A run of lines while a doc run is open: Doc and Blank lines all join it.\<close>

lemma loop_doc_cont:
  assumes "wfState st" "lastSeen st = ltDoc"
    and "\<forall>l\<in>set ds. snd (checkLineType l) = ltDoc \<or> snd (checkLineType l) = ltBlank"
  shows "parseLoop st ds =
           Inr (st\<lparr>segs := extendLast (segs st) (map (\<lambda>l. fst (checkLineType l)) ds) [],
                   lastSeen := ltDoc\<rparr>)"
  using assms
proof (induction ds arbitrary: st)
  case Nil
  then have "segs st \<noteq> []" by (auto simp: wfState_def lt_distinct)
  with Nil show ?case by simp
next
  case (Cons d ds)
  let ?st1 = "st\<lparr>segs := extendLast (segs st) [fst (checkLineType d)] [], lastSeen := ltDoc\<rparr>"
  from Cons.prems have s: "parseStep st d = Inr ?st1"
    by (intro step_doc_cont) simp_all
  with step_wf [OF Cons.prems(1), of d] have w: "wfState ?st1" by simp
  have "parseLoop ?st1 ds =
      Inr (?st1\<lparr>segs := extendLast (segs ?st1) (map (\<lambda>l. fst (checkLineType l)) ds) [],
                lastSeen := ltDoc\<rparr>)"
    using Cons.prems(3) by (intro Cons.IH [OF w]) simp_all
  with s show ?case by simp
qed

text \<open>A run of lines while a code run is open: Code and Blank lines all join it.\<close>

lemma loop_code_cont:
  assumes "wfState st" "lastSeen st = ltCode"
    and "\<forall>l\<in>set cs. snd (checkLineType l) = ltCode \<or> snd (checkLineType l) = ltBlank"
  shows "parseLoop st cs =
           Inr (st\<lparr>segs := extendLast (segs st) [] cs, lastSeen := ltCode\<rparr>)"
  using assms
proof (induction cs arbitrary: st)
  case Nil
  then have "segs st \<noteq> []" by (auto simp: wfState_def lt_distinct)
  with Nil show ?case by simp
next
  case (Cons c cs)
  from Cons.prems have ne: "segs st \<noteq> []" by (auto simp: wfState_def lt_distinct)
  let ?st1 = "st\<lparr>segs := extendLast (segs st) [] [c], lastSeen := ltCode\<rparr>"
  from Cons.prems ne have s: "parseStep st c = Inr ?st1"
    by (intro step_code_cont) auto
  with step_wf [OF Cons.prems(1), of c] have w: "wfState ?st1" by simp
  have "parseLoop ?st1 cs =
      Inr (?st1\<lparr>segs := extendLast (segs ?st1) [] cs, lastSeen := ltCode\<rparr>)"
    using Cons.prems(3) by (intro Cons.IH [OF w]) simp_all
  with s show ?case by simp
qed

text \<open>Blank lines before any content change nothing.\<close>

lemma loop_blank_none:
  assumes "lastSeen st = ltNone" "\<forall>l\<in>set bs. snd (checkLineType l) = ltBlank"
  shows "parseLoop st bs = Inr st"
  using assms
  by (induction bs arbitrary: st) (simp_all add: step_blank_none)


text \<open>A run that starts with a Doc line, from any state.\<close>

lemma loop_doc_run:
  assumes wf: "wfState st" and d: "snd (checkLineType d) = ltDoc"
    and ds: "\<forall>l\<in>set ds. snd (checkLineType l) = ltDoc \<or> snd (checkLineType l) = ltBlank"
  shows "\<exists>st2 base X us. parseLoop st (d # ds) = Inr st2 \<and> wfState st2 \<and> lastSeen st2 = ltDoc \<and>
           segs st2 = base @ [X] \<and> Docs X = us @ map (\<lambda>l. fst (checkLineType l)) (d # ds) \<and>
           Code X = [] \<and>
           (lastSeen st \<noteq> ltDoc \<longrightarrow>
              base = segs st \<and> X = newSeg (map (\<lambda>l. fst (checkLineType l)) (d # ds)) [])"
proof (cases "lastSeen st = ltDoc")
  case True
  let ?docs = "map (\<lambda>l. fst (checkLineType l)) (d # ds)"
  let ?st2 = "st\<lparr>segs := extendLast (segs st) ?docs [], lastSeen := ltDoc\<rparr>"
  from d ds have all: "\<forall>l\<in>set (d # ds). snd (checkLineType l) = ltDoc \<or> snd (checkLineType l) = ltBlank"
    by simp
  have run: "parseLoop st (d # ds) = Inr ?st2"
    using wf True all by (rule loop_doc_cont)
  with loop_wf [OF wf, of "d # ds"] have w2: "wfState ?st2" by simp
  from wf True have c: "Code (last (segs st)) = []" by (simp add: wfState_def)
  have "segs ?st2 = butlast (segs st) @
          [(last (segs st))\<lparr>Docs := Docs (last (segs st)) @ ?docs, Code := Code (last (segs st)) @ []\<rparr>]"
    by (simp add: extendLast_def)
  with run w2 c True show ?thesis by auto
next
  case False
  let ?t = "fst (checkLineType d)"
  let ?st1 = "st\<lparr>segs := segs st @ [newSeg [?t] []],
                   lastSeg := Some (length (segs st)), lastSeen := ltDoc\<rparr>"
  from False d have s: "parseStep st d = Inr ?st1" by (rule step_doc_new)
  with step_wf [OF wf, of d] have w1: "wfState ?st1" by simp
  let ?st2 = "?st1\<lparr>segs := extendLast (segs ?st1) (map (\<lambda>l. fst (checkLineType l)) ds) [],
                   lastSeen := ltDoc\<rparr>"
  have run: "parseLoop ?st1 ds = Inr ?st2"
    using w1 _ ds by (rule loop_doc_cont) simp
  with loop_wf [OF w1, of ds] have w2: "wfState ?st2" by simp
  from s run have r: "parseLoop st (d # ds) = Inr ?st2" by simp
  have "segs ?st2 = segs st @ [newSeg (map (\<lambda>l. fst (checkLineType l)) (d # ds)) []]"
    by (simp add: newSeg_def)
  with r w2 False show ?thesis
    by (intro exI [of _ ?st2] exI [of _ "segs st"]
          exI [of _ "newSeg (map (\<lambda>l. fst (checkLineType l)) (d # ds)) []"] exI [of _ "[]"])
       (simp add: newSeg_def)
qed

text \<open>A run that starts with a Code line, from any state.\<close>

lemma loop_code_run:
  assumes wf: "wfState st" and c: "snd (checkLineType c) = ltCode"
    and cs: "\<forall>l\<in>set cs. snd (checkLineType l) = ltCode \<or> snd (checkLineType l) = ltBlank"
  shows "\<exists>st2 base Y. parseLoop st (c # cs) = Inr st2 \<and> wfState st2 \<and> lastSeen st2 = ltCode \<and>
           segs st2 = base @ [Y] \<and>
           (if segs st = [] then base = [] \<and> Y = newSeg [] (c # cs)
            else base = butlast (segs st) \<and>
                 Y = (last (segs st))\<lparr>Code := Code (last (segs st)) @ c # cs\<rparr>)"
proof (cases "segs st = []")
  case True
  let ?st1 = "st\<lparr>segs := [newSeg [] [c]], lastSeg := Some 0, lastSeen := ltCode\<rparr>"
  from wf True c have s: "parseStep st c = Inr ?st1" by (rule step_code_new)
  with step_wf [OF wf, of c] have w1: "wfState ?st1" by simp
  let ?st2 = "?st1\<lparr>segs := extendLast (segs ?st1) [] cs, lastSeen := ltCode\<rparr>"
  have run: "parseLoop ?st1 cs = Inr ?st2"
    using w1 _ cs by (rule loop_code_cont) simp
  with loop_wf [OF w1, of cs] have w2: "wfState ?st2" by simp
  from s run have r: "parseLoop st (c # cs) = Inr ?st2" by simp
  have "segs ?st2 = [] @ [newSeg [] (c # cs)]"
    by (simp add: newSeg_def extendLast_def)
  with r w2 True show ?thesis
    by (intro exI [of _ ?st2] exI [of _ "[]"] exI [of _ "newSeg [] (c # cs)"]) simp
next
  case False
  let ?st1 = "st\<lparr>segs := extendLast (segs st) [] [c], lastSeen := ltCode\<rparr>"
  from wf False c have s: "parseStep st c = Inr ?st1" by (intro step_code_cont) simp_all
  with step_wf [OF wf, of c] have w1: "wfState ?st1" by simp
  let ?st2 = "?st1\<lparr>segs := extendLast (segs ?st1) [] cs, lastSeen := ltCode\<rparr>"
  have run: "parseLoop ?st1 cs = Inr ?st2"
    using w1 _ cs by (rule loop_code_cont) simp
  with loop_wf [OF w1, of cs] have w2: "wfState ?st2" by simp
  from s run have r: "parseLoop st (c # cs) = Inr ?st2" by simp
  have "segs ?st2 = butlast (segs st) @ [(last (segs st))\<lparr>Code := Code (last (segs st)) @ c # cs\<rparr>]"
    by (simp add: extendLast_def)
  with r w2 False show ?thesis
    by (intro exI [of _ ?st2] exI [of _ "butlast (segs st)"]
          exI [of _ "(last (segs st))\<lparr>Code := Code (last (segs st)) @ c # cs\<rparr>"]) simp
qed


lemma kinds_expand:
  "(\<forall>l\<in>set ls. kindOf l = k) \<Longrightarrow> (\<forall>l\<in>set (expandTabs ls). snd (checkLineType l) = k)"
  by (simp add: expandTabs_def kindOf_def)

lemma docs_expand: "map (\<lambda>l. fst (checkLineType l)) (expandTabs ls) = map docOf ls"
  by (simp add: expandTabs_def docOf_def)

lemma expandTabs_append: "expandTabs (xs @ ys) = expandTabs xs @ expandTabs ys"
  by (simp add: expandTabs_def)

text \<open>The loop on an input cut in two: the first part ends in a well-formed state.\<close>

lemma loop_split:
  obtains st1 st' where "parseLoop initState (pre @ rest) = Inr st'"
    "parseLoop initState pre = Inr st1" "wfState st1" "parseLoop st1 rest = Inr st'"
proof -
  from loop_wf [OF wf_init, of pre] obtain st1 where
    1: "parseLoop initState pre = Inr st1" and w: "wfState st1" by blast
  from loop_wf [OF w, of rest] obtain st' where 2: "parseLoop st1 rest = Inr st'" by blast
  from 1 2 have "parseLoop initState (pre @ rest) = Inr st'"
    by (simp add: parseLoop_append)
  with 1 w 2 show thesis using that by blast
qed

lemma doc_run_kept:
  assumes wf: "wfState st" and d: "snd (checkLineType d) = ltDoc"
    and ds: "\<forall>l\<in>set ds. snd (checkLineType l) = ltDoc \<or> snd (checkLineType l) = ltBlank"
    and run: "parseLoop st ((d # ds) @ post) = Inr st'"
  shows "\<exists>k us ws. k < length (segs st') \<and>
           Docs (segs st' ! k) = us @ map (\<lambda>l. fst (checkLineType l)) (d # ds) @ ws"
proof -
  from loop_doc_run [OF wf d ds] obtain st2 base X us where
    r2: "parseLoop st (d # ds) = Inr st2" and w2: "wfState st2"
    and s2: "segs st2 = base @ [X]"
    and X: "Docs X = us @ map (\<lambda>l. fst (checkLineType l)) (d # ds)"
    by blast
  from run parseLoop_append_Inr [OF r2, of post] have r3: "parseLoop st2 post = Inr st'"
    by simp
  from s2 have ne: "segs st2 \<noteq> []" by simp
  from loop_future [OF w2 ne r3] obtain ws vs new where
    "segs st' = extendLast (segs st2) ws vs @ new" by blast
  with s2 have f: "segs st' = base @ [X\<lparr>Docs := Docs X @ ws, Code := Code X @ vs\<rparr>] @ new"
    by simp
  then have "length base < length (segs st')" by simp
  moreover from f X have
    "Docs (segs st' ! length base) = us @ map (\<lambda>l. fst (checkLineType l)) (d # ds) @ ws"
    by (simp add: nth_append)
  ultimately show ?thesis by blast
qed

lemma code_run_kept:
  assumes wf: "wfState st" and c: "snd (checkLineType c) = ltCode"
    and cs: "\<forall>l\<in>set cs. snd (checkLineType l) = ltCode \<or> snd (checkLineType l) = ltBlank"
    and run: "parseLoop st ((c # cs) @ post) = Inr st'"
  shows "\<exists>k us vs. k < length (segs st') \<and> Code (segs st' ! k) = us @ (c # cs) @ vs"
proof -
  from loop_code_run [OF wf c cs] obtain st2 base Y where
    r2: "parseLoop st (c # cs) = Inr st2" and w2: "wfState st2"
    and s2: "segs st2 = base @ [Y]"
    and Y: "if segs st = [] then base = [] \<and> Y = newSeg [] (c # cs)
            else base = butlast (segs st) \<and>
                 Y = (last (segs st))\<lparr>Code := Code (last (segs st)) @ c # cs\<rparr>"
    by blast
  from Y have "\<exists>us. Code Y = us @ (c # cs)"
    by (cases "segs st = []") (simp_all add: newSeg_def)
  then obtain us where us: "Code Y = us @ (c # cs)" by blast
  from run parseLoop_append_Inr [OF r2, of post] have r3: "parseLoop st2 post = Inr st'"
    by simp
  from s2 have ne: "segs st2 \<noteq> []" by simp
  from loop_future [OF w2 ne r3] obtain ws vs new where
    "segs st' = extendLast (segs st2) ws vs @ new" by blast
  with s2 have f: "segs st' = base @ [Y\<lparr>Docs := Docs Y @ ws, Code := Code Y @ vs\<rparr>] @ new"
    by simp
  then have "length base < length (segs st')" by simp
  moreover from f us have "Code (segs st' ! length base) = us @ (c # cs) @ vs"
    by (simp add: nth_append)
  ultimately show ?thesis by blast
qed

lemma doc_then_code:
  assumes wf: "wfState st" and d: "snd (checkLineType d) = ltDoc"
    and ds: "\<forall>l\<in>set ds. snd (checkLineType l) = ltDoc"
    and c: "snd (checkLineType c) = ltCode"
    and cs: "\<forall>l\<in>set cs. snd (checkLineType l) = ltCode"
    and run: "parseLoop st ((d # ds) @ (c # cs) @ post) = Inr st'"
  shows "\<exists>k us vs. k < length (segs st') \<and>
           Docs (segs st' ! k) = us @ map (\<lambda>l. fst (checkLineType l)) (d # ds) \<and>
           Code (segs st' ! k) = (c # cs) @ vs \<and>
           (st = initState \<longrightarrow> post = [] \<longrightarrow>
              segs st' = [newSeg (map (\<lambda>l. fst (checkLineType l)) (d # ds)) (c # cs)])"
proof -
  from ds have ds': "\<forall>l\<in>set ds. snd (checkLineType l) = ltDoc \<or> snd (checkLineType l) = ltBlank"
    by simp
  from cs have cs': "\<forall>l\<in>set cs. snd (checkLineType l) = ltCode \<or> snd (checkLineType l) = ltBlank"
    by simp
  let ?docs = "map (\<lambda>l. fst (checkLineType l)) (d # ds)"
  from loop_doc_run [OF wf d ds'] obtain st2 base X us where
    r2: "parseLoop st (d # ds) = Inr st2" and w2: "wfState st2"
    and s2: "segs st2 = base @ [X]"
    and X: "Docs X = us @ ?docs" "Code X = []"
    and fresh: "lastSeen st \<noteq> ltDoc \<longrightarrow> base = segs st \<and> X = newSeg ?docs []"
    by blast
  from s2 have ne2: "segs st2 \<noteq> []" by simp
  from loop_code_run [OF w2 c cs'] ne2 obtain st3 where
    r3: "parseLoop st2 (c # cs) = Inr st3" and w3: "wfState st3"
    and l3: "lastSeen st3 = ltCode"
    and s3: "segs st3 = butlast (segs st2) @
               [(last (segs st2))\<lparr>Code := Code (last (segs st2)) @ c # cs\<rparr>]"
    by auto
  from s3 s2 X have s3': "segs st3 = base @ [X\<lparr>Code := c # cs\<rparr>]" by simp
  from run parseLoop_append_Inr [OF r2] parseLoop_append_Inr [OF r3, of post]
  have r4: "parseLoop st3 post = Inr st'"
    by simp
  from s3' have ne3: "segs st3 \<noteq> []" by simp
  from loop_future [OF w3 ne3 r4] l3 obtain vs new where
    "segs st' = extendLast (segs st3) [] vs @ new" by blast
  with s3' have f: "segs st' = base @ [X\<lparr>Code := (c # cs) @ vs\<rparr>] @ new"
    by simp
  then have "length base < length (segs st')" by simp
  moreover from f X have "Docs (segs st' ! length base) = us @ ?docs"
    by (simp add: nth_append)
  moreover from f have "Code (segs st' ! length base) = (c # cs) @ vs"
    by (simp add: nth_append)
  moreover have "segs st' = [newSeg ?docs (c # cs)]" if "st = initState" "post = []"
  proof -
    from that(1) fresh have "base = []" "X = newSeg ?docs []"
      by (simp_all add: initState_def lt_distinct)
    moreover from that(2) r4 have "st' = st3" by simp
    ultimately show ?thesis using s3' by (simp add: newSeg_def)
  qed
  ultimately show ?thesis by blast
qed

lemma code_then_doc:
  assumes wf: "wfState st" and c: "snd (checkLineType c) = ltCode"
    and cs: "\<forall>l\<in>set cs. snd (checkLineType l) = ltCode"
    and d: "snd (checkLineType d) = ltDoc"
    and ds: "\<forall>l\<in>set ds. snd (checkLineType l) = ltDoc"
    and run: "parseLoop st ((c # cs) @ (d # ds) @ post) = Inr st'"
  shows "\<exists>k us ws. Suc k < length (segs st') \<and>
           Code (segs st' ! k) = us @ (c # cs) \<and>
           Docs (segs st' ! Suc k) = map (\<lambda>l. fst (checkLineType l)) (d # ds) @ ws \<and>
           (st = initState \<longrightarrow> post = [] \<longrightarrow>
              segs st' = [newSeg [] (c # cs),
                          newSeg (map (\<lambda>l. fst (checkLineType l)) (d # ds)) []])"
proof -
  from ds have ds': "\<forall>l\<in>set ds. snd (checkLineType l) = ltDoc \<or> snd (checkLineType l) = ltBlank"
    by simp
  from cs have cs': "\<forall>l\<in>set cs. snd (checkLineType l) = ltCode \<or> snd (checkLineType l) = ltBlank"
    by simp
  let ?docs = "map (\<lambda>l. fst (checkLineType l)) (d # ds)"
  from loop_code_run [OF wf c cs'] obtain st2 base Y where
    r2: "parseLoop st (c # cs) = Inr st2" and w2: "wfState st2"
    and l2: "lastSeen st2 = ltCode"
    and s2: "segs st2 = base @ [Y]"
    and Y: "if segs st = [] then base = [] \<and> Y = newSeg [] (c # cs)
            else base = butlast (segs st) \<and>
                 Y = (last (segs st))\<lparr>Code := Code (last (segs st)) @ c # cs\<rparr>"
    by blast
  from Y have "\<exists>us. Code Y = us @ (c # cs)"
    by (cases "segs st = []") (simp_all add: newSeg_def)
  then obtain us where us: "Code Y = us @ (c # cs)" by blast
  from l2 have nd: "lastSeen st2 \<noteq> ltDoc" by (simp add: lt_distinct)
  from loop_doc_run [OF w2 d ds'] nd obtain st3 where
    r3: "parseLoop st2 (d # ds) = Inr st3" and w3: "wfState st3"
    and s3: "segs st3 = segs st2 @ [newSeg ?docs []]"
    by auto
  from run parseLoop_append_Inr [OF r2] parseLoop_append_Inr [OF r3, of post]
  have r4: "parseLoop st3 post = Inr st'"
    by simp
  from s3 have ne3: "segs st3 \<noteq> []" by simp
  from loop_future [OF w3 ne3 r4] obtain ws vs new where
    "segs st' = extendLast (segs st3) ws vs @ new" by blast
  with s3 s2 have f: "segs st' = base @ [Y, newSeg (?docs @ ws) vs] @ new"
    by (simp add: newSeg_def)
  then have "Suc (length base) < length (segs st')" by simp
  moreover from f us have "Code (segs st' ! length base) = us @ (c # cs)"
    by (simp add: nth_append)
  moreover from f have "Docs (segs st' ! Suc (length base)) = ?docs @ ws"
    by (simp add: nth_append newSeg_def)
  moreover have "segs st' = [newSeg [] (c # cs), newSeg ?docs []]" if "st = initState" "post = []"
  proof -
    from that(1) Y have "base = []" "Y = newSeg [] (c # cs)"
      by (simp_all add: initState_def)
    moreover from that(2) r4 have "st' = st3" by simp
    ultimately show ?thesis using s3 s2 by simp
  qed
  ultimately show ?thesis by blast
qed


lemma parseLines_total: "\<exists>ss. parseLines source = Inr ss"
  using loop_wf [OF wf_init, of "expandTabs source"] by (auto simp: parseLines_def)

lemma tabsToSpaces_empty: "(tabsToSpaces b = []) = (b = [])"
  by (cases b) (simp_all add: tabsToSpaces_def ReplaceAll_def)

lemma blank_trimmed: "kindOf b = ltBlank \<Longrightarrow> TrimSpace (tabsToSpaces b) = []"
  by (simp add: kindOf_def checkLineType_def Let_def lt_distinct ltCode_def [symmetric]
           split: if_splits)

lemma blank_docOf: "kindOf b = ltBlank \<Longrightarrow> docOf b = []"
  by (simp add: kindOf_def docOf_def blank_doc)

subsection \<open>The example of the specification\<close>

text \<open>
  Claim C1, as the code has it. For the eight lines \<^verbatim>\<open>// Title\<close>, the empty line,
  \<^verbatim>\<open>// more\<close>, \<^verbatim>\<open>x := 1\<close>, the empty line, \<^verbatim>\<open>y := 2\<close>, \<^verbatim>\<open>// next doc\<close> and \<^verbatim>\<open>z := 3\<close>
  the segmenter returns exactly two segments. The first has the doc-lines \<^verbatim>\<open>Title\<close>, the
  empty text and \<^verbatim>\<open>more\<close> (the blank line between the two doc lines is kept) and the
  code-lines \<^verbatim>\<open>x := 1\<close>, the empty text and \<^verbatim>\<open>y := 2\<close>; the second has the doc-line
  \<^verbatim>\<open>next doc\<close> and the code-line \<^verbatim>\<open>z := 3\<close>. The same holds of \<^verbatim>\<open>parseSegs\<close> on the file
  content that has these lines.
\<close>

theorem parseSegs_example:
  "parseLines [''// Title'', '''', ''// more'', ''x := 1'', '''', ''y := 2'', ''// next doc'', ''z := 3'']
     = Inr [newSeg [''Title'', '''', ''more''] [''x := 1'', '''', ''y := 2''],
            newSeg [''next doc''] [''z := 3'']] \<and>
   parseSegs ''// Title\<newline>\<newline>// more\<newline>x := 1\<newline>\<newline>y := 2\<newline>// next doc\<newline>z := 3''
     = Inr [newSeg [''Title'', '''', ''more''] [''x := 1'', '''', ''y := 2''],
            newSeg [''next doc''] [''z := 3'']]"
  by code_simp

text \<open>
  Claim C1 as it is written fails: the result for these lines is not the two segments
  with the doc-lines \<^verbatim>\<open>Title\<close>, \<^verbatim>\<open>more\<close> in the first.
\<close>

theorem parseSegs_example_counterexample:
  "parseLines [''// Title'', '''', ''// more'', ''x := 1'', '''', ''y := 2'', ''// next doc'', ''z := 3'']
     \<noteq> Inr [newSeg [''Title'', ''more''] [''x := 1'', '''', ''y := 2''],
            newSeg [''next doc''] [''z := 3'']]"
  by code_simp

subsection \<open>Merging and splitting\<close>

text \<open>
  Claim C3. Let \<open>ds\<close> be a run of Doc lines and \<open>cs\<close> a run of Code lines, neither empty.
  Wherever \<open>ds\<close> stands right before \<open>cs\<close> in the input, one segment holds both: its
  doc-lines end with the texts of \<open>ds\<close> and its code-lines start with \<open>cs\<close>; and the
  input \<open>ds\<close>, \<open>cs\<close> alone gives exactly that one segment. Wherever \<open>cs\<close> stands right
  before \<open>ds\<close>, two neighbouring segments hold them: the code-lines of the first end with
  \<open>cs\<close>, and the doc-lines of the next start with the texts of \<open>ds\<close>, which opened it; and the
  input \<open>cs\<close>, \<open>ds\<close> alone gives exactly these two segments.
\<close>

theorem doc_code_merge_split:
  assumes "ds \<noteq> []" "cs \<noteq> []"
    and "\<forall>l\<in>set ds. kindOf l = ltDoc" "\<forall>l\<in>set cs. kindOf l = ltCode"
  shows "(\<exists>ss k us vs. parseLines (pre @ ds @ cs @ post) = Inr ss \<and> k < length ss \<and>
            Docs (ss ! k) = us @ map docOf ds \<and> Code (ss ! k) = expandTabs cs @ vs) \<and>
         parseLines (ds @ cs) = Inr [newSeg (map docOf ds) (expandTabs cs)] \<and>
         (\<exists>ss k us ws. parseLines (pre' @ cs @ ds @ post') = Inr ss \<and> Suc k < length ss \<and>
            Code (ss ! k) = us @ expandTabs cs \<and> Docs (ss ! Suc k) = map docOf ds @ ws) \<and>
         parseLines (cs @ ds) = Inr [newSeg [] (expandTabs cs), newSeg (map docOf ds) []]"
proof -
  from assms(1) obtain d dr where ds: "expandTabs ds = d # dr"
    by (cases ds) (simp_all add: expandTabs_def)
  from assms(2) obtain c cr where cs: "expandTabs cs = c # cr"
    by (cases cs) (simp_all add: expandTabs_def)
  from kinds_expand [OF assms(3)] ds
  have kd: "snd (checkLineType d) = ltDoc" "\<forall>l\<in>set dr. snd (checkLineType l) = ltDoc"
    by simp_all
  from kinds_expand [OF assms(4)] cs
  have kc: "snd (checkLineType c) = ltCode" "\<forall>l\<in>set cr. snd (checkLineType l) = ltCode"
    by simp_all
  have docs: "map (\<lambda>l. fst (checkLineType l)) (d # dr) = map docOf ds"
    using docs_expand [of ds] ds by simp
  have a: "\<exists>k us vs. k < length (segs st') \<and> Docs (segs st' ! k) = us @ map docOf ds \<and>
             Code (segs st' ! k) = expandTabs cs @ vs \<and>
             (st = initState \<longrightarrow> q = [] \<longrightarrow> segs st' = [newSeg (map docOf ds) (expandTabs cs)])"
    if "wfState st" "parseLoop st ((d # dr) @ (c # cr) @ q) = Inr st'" for st st' q
    using doc_then_code [OF that(1) kd kc that(2)] by (simp only: docs cs)
  have b: "\<exists>k us ws. Suc k < length (segs st') \<and> Code (segs st' ! k) = us @ expandTabs cs \<and>
             Docs (segs st' ! Suc k) = map docOf ds @ ws \<and>
             (st = initState \<longrightarrow> q = [] \<longrightarrow>
                segs st' = [newSeg [] (expandTabs cs), newSeg (map docOf ds) []])"
    if "wfState st" "parseLoop st ((c # cr) @ (d # dr) @ q) = Inr st'" for st st' q
    using code_then_doc [OF that(1) kc kd that(2)] by (simp only: docs cs)
  have 1: "\<exists>ss k us vs. parseLines (pre @ ds @ cs @ post) = Inr ss \<and> k < length ss \<and>
            Docs (ss ! k) = us @ map docOf ds \<and> Code (ss ! k) = expandTabs cs @ vs"
  proof -
    obtain st1 st' where
      r: "parseLoop initState (expandTabs pre @ ((d # dr) @ (c # cr) @ expandTabs post)) = Inr st'"
      and w: "wfState st1" and r1: "parseLoop st1 ((d # dr) @ (c # cr) @ expandTabs post) = Inr st'"
      by (rule loop_split)
    from r have "parseLines (pre @ ds @ cs @ post) = Inr (segs st')"
      by (simp add: parseLines_def expandTabs_append ds cs)
    with a [OF w r1] show ?thesis by blast
  qed
  have 2: "parseLines (ds @ cs) = Inr [newSeg (map docOf ds) (expandTabs cs)]"
  proof -
    from loop_wf [OF wf_init, of "(d # dr) @ (c # cr) @ []"] obtain st' where
      r: "parseLoop initState ((d # dr) @ (c # cr) @ []) = Inr st'" by blast
    from a [OF wf_init r] have "segs st' = [newSeg (map docOf ds) (expandTabs cs)]" by blast
    with r show ?thesis
      by (simp add: parseLines_def expandTabs_append ds cs)
  qed
  have 3: "\<exists>ss k us ws. parseLines (pre' @ cs @ ds @ post') = Inr ss \<and> Suc k < length ss \<and>
            Code (ss ! k) = us @ expandTabs cs \<and> Docs (ss ! Suc k) = map docOf ds @ ws"
  proof -
    obtain st1 st' where
      r: "parseLoop initState (expandTabs pre' @ ((c # cr) @ (d # dr) @ expandTabs post')) = Inr st'"
      and w: "wfState st1" and r1: "parseLoop st1 ((c # cr) @ (d # dr) @ expandTabs post') = Inr st'"
      by (rule loop_split)
    from r have "parseLines (pre' @ cs @ ds @ post') = Inr (segs st')"
      by (simp add: parseLines_def expandTabs_append ds cs)
    with b [OF w r1] show ?thesis by blast
  qed
  have 4: "parseLines (cs @ ds) = Inr [newSeg [] (expandTabs cs), newSeg (map docOf ds) []]"
  proof -
    from loop_wf [OF wf_init, of "(c # cr) @ (d # dr) @ []"] obtain st' where
      r: "parseLoop initState ((c # cr) @ (d # dr) @ []) = Inr st'" by blast
    from b [OF wf_init r] have "segs st' = [newSeg [] (expandTabs cs), newSeg (map docOf ds) []]"
      by blast
    with r show ?thesis
      by (simp add: parseLines_def expandTabs_append ds cs)
  qed
  from 1 2 3 4 show ?thesis by blast
qed

theorem doc_code_merge_split_witness:
  "kindOf ''// a'' = ltDoc \<and> kindOf ''x'' = ltCode \<and>
   (\<exists>ss k us vs. parseLines ([''z''] @ [''// a''] @ [''x''] @ ['''', ''// c'']) = Inr ss \<and>
      k < length ss \<and> Docs (ss ! k) = us @ [''a''] \<and> Code (ss ! k) = [''x''] @ vs) \<and>
   parseLines ([''// a''] @ [''x'']) = Inr [newSeg [''a''] [''x'']] \<and>
   (\<exists>ss k us ws. parseLines ([''// y''] @ [''x''] @ [''// a''] @ ['''']) = Inr ss \<and>
      Suc k < length ss \<and> Code (ss ! k) = us @ [''x''] \<and> Docs (ss ! Suc k) = [''a''] @ ws) \<and>
   parseLines ([''x''] @ [''// a'']) = Inr [newSeg [] [''x''], newSeg [''a''] []]"
proof -
  have kd: "kindOf ''// a'' = ltDoc" by code_simp
  have kc: "kindOf ''x'' = ltCode" by code_simp
  have dd: "docOf ''// a'' = ''a''" by code_simp
  have tt: "tabsToSpaces ''x'' = ''x''" by code_simp
  have h: "[''// a''] \<noteq> []" "[''x''] \<noteq> []"
    "\<forall>l\<in>set [''// a'']. kindOf l = ltDoc" "\<forall>l\<in>set [''x'']. kindOf l = ltCode"
    using kd kc by simp_all
  from doc_code_merge_split [OF h, of "[''z'']" "['''', ''// c'']" "[''// y'']" "['''']"] kd kc
  show ?thesis
    by (simp add: dd tt expandTabs_def)
qed

subsection \<open>Blank lines\<close>

text \<open>
  Claim C2, as the code has it. A blank line right between two Doc lines is kept in their
  segment as an empty doc-line. A blank line right between two Code lines is kept in
  their segment as a code-line that is the line itself with its tabs expanded: a blank
  text, and the empty text only when the line is empty. Blank lines before any other line
  are dropped: the result is that of the input without them.
\<close>

theorem blank_line_policy:
  "(kindOf d1 = ltDoc \<and> kindOf b = ltBlank \<and> kindOf d2 = ltDoc \<longrightarrow>
      (\<exists>ss k us ws. parseLines (pre @ [d1, b, d2] @ post) = Inr ss \<and> k < length ss \<and>
         Docs (ss ! k) = us @ [docOf d1, [], docOf d2] @ ws)) \<and>
   (kindOf c1 = ltCode \<and> kindOf b' = ltBlank \<and> kindOf c2 = ltCode \<longrightarrow>
      (\<exists>ss k us vs. parseLines (pre' @ [c1, b', c2] @ post') = Inr ss \<and> k < length ss \<and>
         Code (ss ! k) = us @ [tabsToSpaces c1, tabsToSpaces b', tabsToSpaces c2] @ vs) \<and>
      TrimSpace (tabsToSpaces b') = [] \<and> ((tabsToSpaces b' = []) = (b' = []))) \<and>
   ((\<forall>l\<in>set bs. kindOf l = ltBlank) \<longrightarrow> parseLines (bs @ rest) = parseLines rest)"
proof (intro conjI impI)
  assume k: "kindOf d1 = ltDoc \<and> kindOf b = ltBlank \<and> kindOf d2 = ltDoc"
  let ?d = "tabsToSpaces d1" and ?r = "[tabsToSpaces b, tabsToSpaces d2]"
  obtain st1 st' where
    r: "parseLoop initState (expandTabs pre @ ((?d # ?r) @ expandTabs post)) = Inr st'"
    and w: "wfState st1" and r1: "parseLoop st1 ((?d # ?r) @ expandTabs post) = Inr st'"
    by (rule loop_split)
  from k have kd: "snd (checkLineType ?d) = ltDoc"
    and kr: "\<forall>l\<in>set ?r. snd (checkLineType l) = ltDoc \<or> snd (checkLineType l) = ltBlank"
    by (simp_all add: kindOf_def)
  from doc_run_kept [OF w kd kr r1] obtain k us ws where
    "k < length (segs st')"
    "Docs (segs st' ! k) = us @ map (\<lambda>l. fst (checkLineType l)) (?d # ?r) @ ws"
    by blast
  moreover from k have "docOf b = []" by (simp add: blank_docOf)
  moreover from r have "parseLines (pre @ [d1, b, d2] @ post) = Inr (segs st')"
    by (simp add: parseLines_def expandTabs_def)
  ultimately show "\<exists>ss k us ws. parseLines (pre @ [d1, b, d2] @ post) = Inr ss \<and> k < length ss \<and>
         Docs (ss ! k) = us @ [docOf d1, [], docOf d2] @ ws"
    by (auto simp: docOf_def)
next
  assume k: "kindOf c1 = ltCode \<and> kindOf b' = ltBlank \<and> kindOf c2 = ltCode"
  let ?c = "tabsToSpaces c1" and ?r = "[tabsToSpaces b', tabsToSpaces c2]"
  obtain st1 st' where
    r: "parseLoop initState (expandTabs pre' @ ((?c # ?r) @ expandTabs post')) = Inr st'"
    and w: "wfState st1" and r1: "parseLoop st1 ((?c # ?r) @ expandTabs post') = Inr st'"
    by (rule loop_split)
  from k have kc: "snd (checkLineType ?c) = ltCode"
    and kr: "\<forall>l\<in>set ?r. snd (checkLineType l) = ltCode \<or> snd (checkLineType l) = ltBlank"
    by (simp_all add: kindOf_def)
  from code_run_kept [OF w kc kr r1] obtain k us vs where
    "k < length (segs st')" "Code (segs st' ! k) = us @ (?c # ?r) @ vs"
    by blast
  moreover from r have "parseLines (pre' @ [c1, b', c2] @ post') = Inr (segs st')"
    by (simp add: parseLines_def expandTabs_def)
  ultimately show "\<exists>ss k us vs. parseLines (pre' @ [c1, b', c2] @ post') = Inr ss \<and> k < length ss \<and>
         Code (ss ! k) = us @ [tabsToSpaces c1, tabsToSpaces b', tabsToSpaces c2] @ vs"
    by auto
  from k show "TrimSpace (tabsToSpaces b') = []" by (simp add: blank_trimmed)
  show "(tabsToSpaces b' = []) = (b' = [])" by (rule tabsToSpaces_empty)
next
  assume k: "\<forall>l\<in>set bs. kindOf l = ltBlank"
  have "parseLoop initState (expandTabs bs) = Inr initState"
    using kinds_expand [OF k] by (intro loop_blank_none) (simp_all add: initState_def)
  then show "parseLines (bs @ rest) = parseLines rest"
    by (simp add: parseLines_def expandTabs_append parseLoop_append)
qed

theorem blank_line_policy_witness:
  "kindOf ''// a'' = ltDoc \<and> kindOf '''' = ltBlank \<and> kindOf ''// b'' = ltDoc \<and>
   (\<exists>ss k us ws. parseLines ([''x''] @ [''// a'', '''', ''// b''] @ [''y'']) = Inr ss \<and>
      k < length ss \<and> Docs (ss ! k) = us @ [''a'', '''', ''b''] @ ws) \<and>
   kindOf ''x'' = ltCode \<and> kindOf ''  '' = ltBlank \<and> kindOf ''y'' = ltCode \<and>
   (\<exists>ss k us vs. parseLines ([''// a''] @ [''x'', ''  '', ''y''] @ [''// b'']) = Inr ss \<and>
      k < length ss \<and> Code (ss ! k) = us @ [''x'', ''  '', ''y''] @ vs) \<and>
   TrimSpace ''  '' = '''' \<and>
   parseLines (['''', ''  ''] @ [''x'', ''// a'']) = parseLines [''x'', ''// a'']"
proof -
  have kd: "kindOf ''// a'' = ltDoc" "kindOf ''// b'' = ltDoc" by code_simp+
  have kb: "kindOf '''' = ltBlank" "kindOf ''  '' = ltBlank" by code_simp+
  have kc: "kindOf ''x'' = ltCode" "kindOf ''y'' = ltCode" by code_simp+
  have dd: "docOf ''// a'' = ''a''" "docOf ''// b'' = ''b''" by code_simp+
  have tt: "tabsToSpaces ''x'' = ''x''" "tabsToSpaces ''  '' = ''  ''" "tabsToSpaces ''y'' = ''y''"
    by code_simp+
  from blank_line_policy [of "''// a''" "''''" "''// b''" "[''x'']" "[''y'']"
      "''x''" "''  ''" "''y''" "[''// a'']" "[''// b'']" "['''', ''  '']" "[''x'', ''// a'']"]
    kd kb kc
  show ?thesis
    by (simp add: dd tt)
qed

text \<open>
  Claim C2 as it is written fails in its second part: in the lines \<^verbatim>\<open>a\<close>, two spaces,
  \<^verbatim>\<open>b\<close> the blank line stands between two Code lines, and its code-line in the segment
  is the two spaces, not the empty text.
\<close>

theorem blank_line_policy_counterexample:
  "kindOf ''a'' = ltCode \<and> kindOf ''  '' = ltBlank \<and> kindOf ''b'' = ltCode \<and>
   parseLines [''a'', ''  '', ''b''] = Inr [newSeg [] [''a'', ''  '', ''b'']] \<and>
   Code (newSeg [] [''a'', ''  '', ''b'']) ! 1 \<noteq> ''''"
  by code_simp

section \<open>The catalog\<close>

lemma linked_length [simp]: "length (linked f a p rest) = length rest"
  by (induction rest arbitrary: a p) simp_all

lemma linked_nth:
  "j < length rest \<Longrightarrow>
     linked f a p rest ! j =
       (newIndex f (rest ! j))\<lparr>Prev := (if j = 0 then p else Some (a + j - 1)),
                              Next := (if Suc j < length rest then Some (a + Suc j) else None)\<rparr>"
proof (induction rest arbitrary: a p j)
  case Nil
  then show ?case by simp
next
  case (Cons name rest)
  show ?case
  proof (cases j)
    case 0
    then show ?thesis by (cases rest) simp_all
  next
    case (Suc j')
    with Cons.prems have "j' < length rest" by simp
    from Cons.IH [OF this, of "Suc a" "Some a"] Suc show ?thesis
      by (cases j') simp_all
  qed
qed

lemma newIndex_fields [simp]:
  "Prev (newIndex f name) = None" "Next (newIndex f name) = None" "cache (newIndex f name) = None"
  "Name (newIndex f name) = name"
  by (simp_all add: newIndex_def Let_def)

lemma newIndex_Path: "Path (newIndex f name) = ''/'' @ ToLower f (drop 3 name)"
  by (simp add: newIndex_def Let_def)

lemma newIndex_Title: "Title (newIndex f name) = ReplaceAll (drop 3 name) CHR ''-'' '' ''"
  by (simp add: newIndex_def Let_def)

lemma setNext_length [simp]: "length (setNext h p a) = length h"
  by (simp add: setNext_def split: option.splits)

text \<open>One iteration of the loop, on the store.\<close>

lemma indexLoop_Cons:
  assumes "3 \<le> length name" "i < length (examples l)" "\<forall>p. prev l = Some p \<longrightarrow> p < length h"
  shows "indexLoop f (name # rest) i (h, l) =
           indexLoop f rest (Suc i)
             (setNext h (prev l) (length h) @ [(newIndex f name)\<lparr>Prev := prev l\<rparr>],
              l\<lparr>examples := (examples l)[i := Some (length h)],
                indexes := (indexes l)(Path (newIndex f name) \<mapsto> length h),
                prev := Some (length h)\<rparr>)"
proof (cases "prev l")
  case None
  with assms show ?thesis by (simp add: Let_def setNext_def)
next
  case (Some p)
  with assms have "p < length h" by simp
  with Some assms show ?thesis
    by (simp add: Let_def setNext_def nth_append list_update_append)
qed

text \<open>
  The whole loop: it does not panic on names of three bytes or more, the store grows by
  the descriptors of \<^const>\<open>linked\<close>, and \<open>examples\<close> gets their addresses in order.
\<close>

lemma indexLoop_closed:
  assumes "\<forall>n\<in>set rest. 3 \<le> length n" "i + length rest \<le> length (examples l)"
    and "\<forall>p. prev l = Some p \<longrightarrow> p < length h"
  shows "\<exists>l'. indexLoop f rest i (h, l) =
             Inr ((if rest = [] then h else setNext h (prev l) (length h))
                    @ linked f (length h) (prev l) rest, l') \<and>
           length (examples l') = length (examples l) \<and>
           (\<forall>j<length rest. examples l' ! (i + j) = Some (length h + j)) \<and>
           (\<forall>m<i. examples l' ! m = examples l ! m) \<and>
           (\<forall>q a. indexes l' q = Some a \<longrightarrow>
                    indexes l q = Some a \<or> a < length h + length rest)"
  using assms
proof (induction rest arbitrary: i h l)
  case Nil
  then show ?case by simp
next
  case (Cons name rest)
  let ?h1 = "setNext h (prev l) (length h) @ [(newIndex f name)\<lparr>Prev := prev l\<rparr>]"
  let ?l1 = "l\<lparr>examples := (examples l)[i := Some (length h)],
                indexes := (indexes l)(Path (newIndex f name) \<mapsto> length h),
                prev := Some (length h)\<rparr>"
  from Cons.prems have n: "3 \<le> length name" and i: "i < length (examples l)" by simp_all
  have step: "indexLoop f (name # rest) i (h, l) = indexLoop f rest (Suc i) (?h1, ?l1)"
    using n i Cons.prems(3) by (rule indexLoop_Cons)
  have "\<exists>l'. indexLoop f rest (Suc i) (?h1, ?l1) =
             Inr ((if rest = [] then ?h1 else setNext ?h1 (prev ?l1) (length ?h1))
                    @ linked f (length ?h1) (prev ?l1) rest, l') \<and>
           length (examples l') = length (examples ?l1) \<and>
           (\<forall>j<length rest. examples l' ! (Suc i + j) = Some (length ?h1 + j)) \<and>
           (\<forall>m<Suc i. examples l' ! m = examples ?l1 ! m) \<and>
           (\<forall>q a. indexes l' q = Some a \<longrightarrow>
                    indexes ?l1 q = Some a \<or> a < length ?h1 + length rest)"
    using Cons.prems by (intro Cons.IH) simp_all
  then obtain l' where
    r: "indexLoop f rest (Suc i) (?h1, ?l1) =
          Inr ((if rest = [] then ?h1 else setNext ?h1 (prev ?l1) (length ?h1))
                 @ linked f (length ?h1) (prev ?l1) rest, l')"
    and len: "length (examples l') = length (examples ?l1)"
    and new: "\<forall>j<length rest. examples l' ! (Suc i + j) = Some (length ?h1 + j)"
    and old: "\<forall>m<Suc i. examples l' ! m = examples ?l1 ! m"
    and idx: "\<forall>q a. indexes l' q = Some a \<longrightarrow>
                    indexes ?l1 q = Some a \<or> a < length ?h1 + length rest"
    by blast
  have heap: "(if rest = [] then ?h1 else setNext ?h1 (prev ?l1) (length ?h1))
                 @ linked f (length ?h1) (prev ?l1) rest
              = setNext h (prev l) (length h) @ linked f (length h) (prev l) (name # rest)"
    by (simp add: setNext_def [of "_ @ _"] list_update_append nth_append)
  have ex: "\<forall>j<length (name # rest). examples l' ! (i + j) = Some (length h + j)"
  proof (intro allI impI)
    fix j assume j: "j < length (name # rest)"
    show "examples l' ! (i + j) = Some (length h + j)"
    proof (cases j)
      case 0
      with old i show ?thesis by simp
    next
      case (Suc j')
      with j new show ?thesis by simp
    qed
  qed
  have old': "\<forall>m<i. examples l' ! m = examples l ! m"
    using old by simp
  have idx': "\<forall>q a. indexes l' q = Some a \<longrightarrow>
                    indexes l q = Some a \<or> a < length h + length (name # rest)"
  proof (intro allI impI)
    fix q a assume "indexes l' q = Some a"
    with idx have "indexes ?l1 q = Some a \<or> a < length ?h1 + length rest" by blast
    then show "indexes l q = Some a \<or> a < length h + length (name # rest)"
      by (auto split: if_splits)
  qed
  from step r heap len ex old' idx' show ?case by simp
qed

text \<open>The catalog of \<^const>\<open>buildCatalog\<close>, in closed form.\<close>

lemma buildCatalog_closed:
  assumes "\<forall>name\<in>set tutorial. 3 \<le> length name"
  shows "\<exists>l. buildCatalog f tutorial h = Inr (h @ linked f (length h) None tutorial, l) \<and>
           length (examples l) = length tutorial \<and>
           (\<forall>j<length tutorial. examples l ! j = Some (length h + j)) \<and>
           (\<forall>q a. indexes l q = Some a \<longrightarrow> a < length h + length tutorial)"
proof -
  let ?l0 = "\<lparr>examples = replicate (length tutorial) None, indexes = Map.empty, prev = None\<rparr>"
  from indexLoop_closed [OF assms, of 0 ?l0 h f] obtain l' where
    "indexLoop f tutorial 0 (h, ?l0) =
       Inr ((if tutorial = [] then h else setNext h (prev ?l0) (length h))
              @ linked f (length h) (prev ?l0) tutorial, l')"
    "length (examples l') = length (examples ?l0)"
    "\<forall>j<length tutorial. examples l' ! (0 + j) = Some (length h + j)"
    "\<forall>q a. indexes l' q = Some a \<longrightarrow> indexes ?l0 q = Some a \<or> a < length h + length tutorial"
    by auto
  then show ?thesis
    by (intro exI [of _ l']) (simp add: buildCatalog_def setNext_def)
qed

lemma descriptor_closed:
  assumes "examples l ! i = Some (length h + i)" "i < length tutorial"
  shows "descriptor (h @ linked f (length h) None tutorial) l i =
           (newIndex f (tutorial ! i))\<lparr>Prev := (if i = 0 then None else Some (length h + i - 1)),
              Next := (if Suc i < length tutorial then Some (length h + Suc i) else None)\<rparr>"
  using assms by (simp add: descriptor_def nth_append linked_nth)

text \<open>
  Claim C7. For every list of \<open>N\<close> example names (of three bytes or more each, as
  \<^verbatim>\<open>listTutorial\<close> gives them; a shorter name makes \<^verbatim>\<open>name[3:]\<close> panic) the loop of
  \<^verbatim>\<open>renderIndex\<close> returns a catalog that is doubly linked in the order of the list: every
  entry of \<open>examples\<close> points to a descriptor of its own, made for the name at that
  position; the first descriptor has no \<open>Prev\<close>, the last has no \<open>Next\<close>, and for every
  \<open>i\<close> from 1 to \<open>N - 1\<close> the \<open>Prev\<close> of descriptor \<open>i\<close> is the pointer \<open>examples[i-1]\<close> and
  the \<open>Next\<close> of descriptor \<open>i - 1\<close> is the pointer \<open>examples[i]\<close>.
\<close>

theorem catalog_linkage:
  assumes "\<forall>name\<in>set tutorial. 3 \<le> length name"
  shows "\<exists>h' l. buildCatalog f tutorial h = Inr (h', l) \<and>
           length (examples l) = length tutorial \<and>
           (\<forall>i<length tutorial.
              examples l ! i = Some (length h + i) \<and> length h + i < length h' \<and>
              Name (descriptor h' l i) = tutorial ! i) \<and>
           (tutorial \<noteq> [] \<longrightarrow>
              Prev (descriptor h' l 0) = None \<and>
              Next (descriptor h' l (length tutorial - 1)) = None) \<and>
           (\<forall>i. 1 \<le> i \<and> i < length tutorial \<longrightarrow>
              Prev (descriptor h' l i) = examples l ! (i - 1) \<and>
              Next (descriptor h' l (i - 1)) = examples l ! i)"
proof -
  let ?h' = "h @ linked f (length h) None tutorial"
  from buildCatalog_closed [OF assms, of f h] obtain l where
    r: "buildCatalog f tutorial h = Inr (?h', l)"
    and len: "length (examples l) = length tutorial"
    and ex: "\<forall>j<length tutorial. examples l ! j = Some (length h + j)"
    by blast
  have d: "descriptor ?h' l i =
           (newIndex f (tutorial ! i))\<lparr>Prev := (if i = 0 then None else Some (length h + i - 1)),
              Next := (if Suc i < length tutorial then Some (length h + Suc i) else None)\<rparr>"
    if "i < length tutorial" for i
    using ex that by (intro descriptor_closed) simp_all
  have 1: "\<forall>i<length tutorial.
              examples l ! i = Some (length h + i) \<and> length h + i < length ?h' \<and>
              Name (descriptor ?h' l i) = tutorial ! i"
    using ex d by simp
  have 2: "tutorial \<noteq> [] \<longrightarrow>
              Prev (descriptor ?h' l 0) = None \<and>
              Next (descriptor ?h' l (length tutorial - 1)) = None"
  proof
    assume ne: "tutorial \<noteq> []"
    then have "0 < length tutorial" "length tutorial - 1 < length tutorial" by simp_all
    from d [OF this(1)] d [OF this(2)] ne
    show "Prev (descriptor ?h' l 0) = None \<and>
          Next (descriptor ?h' l (length tutorial - 1)) = None"
      by simp
  qed
  have 3: "\<forall>i. 1 \<le> i \<and> i < length tutorial \<longrightarrow>
              Prev (descriptor ?h' l i) = examples l ! (i - 1) \<and>
              Next (descriptor ?h' l (i - 1)) = examples l ! i"
  proof (intro allI impI)
    fix i assume i: "1 \<le> i \<and> i < length tutorial"
    then have i1: "i - 1 < length tutorial" and i0: "i < length tutorial" by arith+
    from ex i0 i1 have e: "examples l ! i = Some (length h + i)"
      "examples l ! (i - 1) = Some (length h + (i - 1))" by simp_all
    from i have a: "length h + i - 1 = length h + (i - 1)" "Suc (i - 1) = i" by arith+
    from d [OF i0] i have "Prev (descriptor ?h' l i) = Some (length h + i - 1)" by simp
    moreover from d [OF i1] i0 a(2)
    have "Next (descriptor ?h' l (i - 1)) = Some (length h + i)" by simp
    ultimately
    show "Prev (descriptor ?h' l i) = examples l ! (i - 1) \<and>
          Next (descriptor ?h' l (i - 1)) = examples l ! i"
      using e a(1) by simp
  qed
  from r len 1 2 3 show ?thesis by blast
qed

theorem catalog_linkage_witness:
  "3 \<le> length ''01-Hello-World'' \<and> 3 \<le> length ''05-Channels'' \<and>
   (\<exists>h' l. buildCatalog id [''01-Hello-World'', ''05-Channels''] [] = Inr (h', l) \<and>
      examples l = [Some 0, Some 1] \<and>
      Name (descriptor h' l 0) = ''01-Hello-World'' \<and> Name (descriptor h' l 1) = ''05-Channels'' \<and>
      Prev (descriptor h' l 0) = None \<and> Next (descriptor h' l 1) = None \<and>
      Prev (descriptor h' l 1) = Some 0 \<and> Next (descriptor h' l 0) = Some 1)"
proof -
  have h: "\<forall>name\<in>set [''01-Hello-World'', ''05-Channels'']. 3 \<le> length name" by simp
  from catalog_linkage [OF h, of id "[]"] obtain h' l where
    r: "buildCatalog id [''01-Hello-World'', ''05-Channels''] [] = Inr (h', l)"
    and len: "length (examples l) = 2"
    and ex: "\<forall>i<2. examples l ! i = Some i \<and> i < length h' \<and>
               Name (descriptor h' l i) = [''01-Hello-World'', ''05-Channels''] ! i"
    and ends: "Prev (descriptor h' l 0) = None \<and> Next (descriptor h' l 1) = None"
    and link: "\<forall>i. 1 \<le> i \<and> i < 2 \<longrightarrow>
                 Prev (descriptor h' l i) = examples l ! (i - 1) \<and>
                 Next (descriptor h' l (i - 1)) = examples l ! i"
    by auto
  from ex have e0: "examples l ! 0 = Some 0" and e1: "examples l ! 1 = Some 1"
    and n0: "Name (descriptor h' l 0) = ''01-Hello-World''"
    and n1: "Name (descriptor h' l 1) = ''05-Channels''"
    by simp_all
  from len e0 e1 have "examples l = [Some 0, Some 1]"
    by (intro nth_equalityI) (auto simp: less_Suc_eq numeral_2_eq_2)
  moreover from link [rule_format, of 1] e0 e1
  have "Prev (descriptor h' l 1) = Some 0 \<and> Next (descriptor h' l 0) = Some 1"
    by simp
  ultimately show ?thesis using r n0 n1 ends by simp
qed

lemma ReplaceAll_char: "ReplaceAll s c [d] = map (\<lambda>x. if x = c then d else x) s"
  by (induction s) (simp_all add: ReplaceAll_def)

lemma ToLower_ascii:
  "list_all (\<lambda>c. (of_char c :: nat) < 128) s \<Longrightarrow> ToLower f s = map lowerASCII s"
  by (simp add: ToLower_def)

text \<open>
  Claim C6, as the code has it. For every catalog directory name made of an ordinal and a
  separator (three bytes together) and a title, the URL path of its descriptor is \<^verbatim>\<open>/\<close>
  followed by the lowercase of the title, in which the separators stay; the display
  title is the title with every separator replaced by a space. The lowercase of a title
  of ASCII bytes maps the letters A to Z to a to z and nothing else.
\<close>

theorem catalog_path_title:
  assumes "\<forall>name\<in>set tutorial. 3 \<le> length name"
    and "i < length tutorial" "tutorial ! i = ordinal @ title" "length ordinal = 3"
  shows "\<exists>h' l. buildCatalog f tutorial h = Inr (h', l) \<and>
           Name (descriptor h' l i) = ordinal @ title \<and>
           Path (descriptor h' l i) = ''/'' @ ToLower f title \<and>
           Title (descriptor h' l i) = map (\<lambda>c. if c = CHR ''-'' then CHR '' '' else c) title \<and>
           (list_all (\<lambda>c. (of_char c :: nat) < 128) title \<longrightarrow>
              ToLower f title = map lowerASCII title)"
proof -
  let ?h' = "h @ linked f (length h) None tutorial"
  from buildCatalog_closed [OF assms(1), of f h] obtain l where
    r: "buildCatalog f tutorial h = Inr (?h', l)"
    and ex: "\<forall>j<length tutorial. examples l ! j = Some (length h + j)"
    by blast
  from ex assms(2) have e: "examples l ! i = Some (length h + i)" by simp
  from assms(3,4) have t: "drop 3 (tutorial ! i) = title" by simp
  have "Name (descriptor ?h' l i) = ordinal @ title"
    using descriptor_closed [OF e assms(2), of f] assms(3) by simp
  moreover have "Path (descriptor ?h' l i) = ''/'' @ ToLower f title"
    using descriptor_closed [OF e assms(2), of f] t by (simp add: newIndex_Path)
  moreover have "Title (descriptor ?h' l i) = map (\<lambda>c. if c = CHR ''-'' then CHR '' '' else c) title"
    using descriptor_closed [OF e assms(2), of f] t by (simp add: newIndex_Title ReplaceAll_char)
  ultimately show ?thesis using r ToLower_ascii [of title f] by blast
qed

theorem catalog_path_title_witness:
  "3 \<le> length ''05-Channels'' \<and> (0::nat) < length [''05-Channels''] \<and>
   [''05-Channels''] ! 0 = ''05-'' @ ''Channels'' \<and> length ''05-'' = 3 \<and>
   (\<exists>h' l. buildCatalog id [''05-Channels''] [] = Inr (h', l) \<and>
      Name (descriptor h' l 0) = ''05-Channels'' \<and>
      Path (descriptor h' l 0) = ''/channels'' \<and>
      Title (descriptor h' l 0) = ''Channels'')"
proof -
  have h: "\<forall>name\<in>set [''05-Channels'']. 3 \<le> length name" "(0::nat) < length [''05-Channels'']"
    "[''05-Channels''] ! 0 = ''05-'' @ ''Channels''" "length ''05-'' = 3"
    by simp_all
  have a: "list_all (\<lambda>c. (of_char c :: nat) < 128) ''Channels''" by simp
  have lo: "map lowerASCII ''Channels'' = ''channels''" by code_simp
  from catalog_path_title [OF h, of id "[]"] a lo show ?thesis
    by auto
qed

text \<open>
  Claim C6 as it is written fails: the directory \<^verbatim>\<open>01-Hello-World\<close> gets the URL path
  \<^verbatim>\<open>/hello-world\<close>, with its separator, and not \<^verbatim>\<open>/hello world\<close>, the lowercase of the title
  with the separator replaced by a space.
\<close>

theorem catalog_path_title_counterexample:
  "map_sum id (map Path \<circ> fst) (buildCatalog id [''01-Hello-World''] []) = Inr [''/hello-world''] \<and>
   ''/hello-world'' \<noteq> ''/'' @ map lowerASCII (ReplaceAll ''Hello-World'' CHR ''-'' '' '')"
  by code_simp

section \<open>Rendered segments\<close>

lemma extendLast_CodeForJs:
  assumes "ss \<noteq> []" "\<forall>s\<in>set ss. CodeForJs s = []"
  shows "\<forall>s\<in>set (extendLast ss ws vs). CodeForJs s = []"
proof -
  from assms have "CodeForJs (last ss) = []" by simp
  moreover from assms(2) have "\<forall>s\<in>set (butlast ss). CodeForJs s = []"
    by (auto dest: in_set_butlastD)
  ultimately show ?thesis by (auto simp: extendLast_def)
qed

lemma step_CodeForJs:
  assumes "wfState st" "\<forall>s\<in>set (segs st). CodeForJs s = []" "parseStep st l = Inr st'"
  shows "\<forall>s\<in>set (segs st'). CodeForJs s = []"
  using assms(1)
proof (cases rule: step_cases [where l = l])
  case blank
  with assms show ?thesis by simp
next
  case (doc_cont t)
  with assms extendLast_CodeForJs [OF doc_cont(1) assms(2)] show ?thesis by auto
next
  case (doc_new t)
  with assms show ?thesis by (auto simp: newSeg_def)
next
  case code_cont
  with assms extendLast_CodeForJs [OF code_cont(1) assms(2)] show ?thesis by auto
next
  case code_new
  with assms show ?thesis by (auto simp: newSeg_def)
qed

lemma loop_CodeForJs:
  assumes "wfState st" "\<forall>s\<in>set (segs st). CodeForJs s = []" "parseLoop st ls = Inr st'"
  shows "\<forall>s\<in>set (segs st'). CodeForJs s = []"
  using assms
proof (induction ls arbitrary: st)
  case Nil
  then show ?case by simp
next
  case (Cons l ls)
  from step_wf [OF Cons.prems(1), of l] obtain st1 where
    s: "parseStep st l = Inr st1" and w: "wfState st1" by blast
  from step_CodeForJs [OF Cons.prems(1,2) s] have c: "\<forall>s\<in>set (segs st1). CodeForJs s = []" .
  from Cons.prems(3) s have "parseLoop st1 ls = Inr st'" by simp
  from Cons.IH [OF w c this] show ?case .
qed

lemma parseSegs_CodeForJs:
  assumes "parseSegs filecontent = Inr parsed"
  shows "\<forall>s\<in>set parsed. CodeForJs s = []"
proof -
  from assms obtain st' where
    r: "parseLoop initState (expandTabs (Split filecontent CHR ''\<newline>'')) = Inr st'"
    and p: "parsed = segs st'"
    by (auto simp: parseSegs_def parseLines_def split: sum.splits)
  have "\<forall>s\<in>set (segs initState). CodeForJs s = []" by (simp add: initState_def)
  from loop_CodeForJs [OF wf_init this r] p show ?thesis by simp
qed

lemma renderSeg_CodeForJs:
  assumes "renderSeg env sourcePath seg = Inr r" "CodeForJs seg = []"
  shows "CodeForJs r = (if Code r = [] then [] else strings_Join (Code r) ''\<newline>'')"
  using assms
  by (auto simp: renderSeg_def Let_def split: if_splits sum.splits)

lemma renderSegs_CodeForJs:
  assumes "renderSegs env sourcePath ss = Inr rs" "\<forall>s\<in>set ss. CodeForJs s = []"
  shows "\<forall>r\<in>set rs. CodeForJs r = (if Code r = [] then [] else strings_Join (Code r) ''\<newline>'')"
  using assms
proof (induction ss arbitrary: rs)
  case Nil
  then show ?case by simp
next
  case (Cons s ss)
  from Cons.prems(1) obtain r rs' where
    1: "renderSeg env sourcePath s = Inr r" and 2: "renderSegs env sourcePath ss = Inr rs'"
    and rs: "rs = r # rs'"
    by (auto split: sum.splits)
  from renderSeg_CodeForJs [OF 1] Cons.prems(2)
  have "CodeForJs r = (if Code r = [] then [] else strings_Join (Code r) ''\<newline>'')" by simp
  moreover from Cons.IH [OF 2] Cons.prems(2)
  have "\<forall>r\<in>set rs'. CodeForJs r = (if Code r = [] then [] else strings_Join (Code r) ''\<newline>'')"
    by simp
  ultimately show ?case using rs by simp
qed

lemma isGopFile_suffixes:
  "isGopFile sourcePath = (HasSuffix sourcePath ''.gop'' \<or> HasSuffix sourcePath ''.go'')"
  by (simp add: isGopFile_def goFileSuffixes_def)

text \<open>
  Claim C5, as the code has it. In every rendered segment the joined code text
  \<open>CodeForJs\<close> is the code-lines joined by newlines whenever the segment has code-lines,
  whatever the kind of the source file; it is absent only in a segment with no code-lines.
  What depends on the kind of the file is the text returned next to the segments: the
  whole content of the file when the path ends in \<^verbatim>\<open>.gop\<close> or in \<^verbatim>\<open>.go\<close>, and the empty
  text for every other path.
\<close>

theorem rendered_code_text:
  assumes "parseAndRenderSegs env sourcePath = Inr (rendered, filecontents)"
  shows "(\<forall>seg\<in>set rendered.
            CodeForJs seg = (if Code seg = [] then [] else strings_Join (Code seg) ''\<newline>'')) \<and>
         (\<exists>filecontent. readFile env sourcePath = Inr filecontent \<and>
            filecontents =
              (if HasSuffix sourcePath ''.gop'' \<or> HasSuffix sourcePath ''.go''
               then filecontent else []))"
proof -
  from assms obtain filecontent parsed where
    f: "readFile env sourcePath = Inr filecontent"
    and p: "parseSegs filecontent = Inr parsed"
    and r: "renderSegs env sourcePath parsed = Inr rendered"
    and c: "filecontents = (if \<not> isGopFile sourcePath then [] else filecontent)"
    by (auto simp: parseAndRenderSegs_def mustReadFile_def split: sum.splits)
  from renderSegs_CodeForJs [OF r parseSegs_CodeForJs [OF p]]
  have "\<forall>seg\<in>set rendered.
            CodeForJs seg = (if Code seg = [] then [] else strings_Join (Code seg) ''\<newline>'')" .
  moreover from c have "filecontents =
      (if HasSuffix sourcePath ''.gop'' \<or> HasSuffix sourcePath ''.go'' then filecontent else [])"
    by (simp add: isGopFile_suffixes)
  ultimately show ?thesis using f by blast
qed

theorem rendered_code_text_witness:
  "parseAndRenderSegs (textEnv ''// doc\<newline>x := 1'') ''main.gop'' =
     Inr ([\<lparr>Docs = [''doc''], Code = [''x := 1''], DocsRendered = ''doc'',
             CodeRendered = ''x := 1'', CodeForJs = ''x := 1'',
             CodeLeading = False, CodeRun = False\<rparr>], ''// doc\<newline>x := 1'') \<and>
   strings_Join [''x := 1''] ''\<newline>'' = ''x := 1'' \<and>
   HasSuffix ''main.gop'' ''.gop'' \<and>
   readFile (textEnv ''// doc\<newline>x := 1'') ''main.gop'' = Inr ''// doc\<newline>x := 1''"
proof -
  have h: "parseAndRenderSegs (textEnv ''// doc\<newline>x := 1'') ''main.gop'' =
     Inr ([\<lparr>Docs = [''doc''], Code = [''x := 1''], DocsRendered = ''doc'',
             CodeRendered = ''x := 1'', CodeForJs = ''x := 1'',
             CodeLeading = False, CodeRun = False\<rparr>], ''// doc\<newline>x := 1'')"
    by code_simp
  have s: "HasSuffix ''main.gop'' ''.gop''" by code_simp
  from rendered_code_text [OF h] h s show ?thesis
    by (simp add: textEnv_def)
qed

text \<open>
  Claim C5 as it is written fails: \<^verbatim>\<open>notes.txt\<close> is not a file of the runnable kind, and
  the segment of its one code line still has the joined code text.
\<close>

theorem rendered_code_text_counterexample:
  "\<not> isGopFile ''notes.txt'' \<and>
   parseAndRenderSegs (textEnv ''x := 1'') ''notes.txt'' =
     Inr ([\<lparr>Docs = [], Code = [''x := 1''], DocsRendered = [],
             CodeRendered = ''x := 1'', CodeForJs = ''x := 1'',
             CodeLeading = False, CodeRun = False\<rparr>], []) \<and>
   CodeForJs \<lparr>Docs = [], Code = [''x := 1''], DocsRendered = [],
             CodeRendered = ''x := 1'', CodeForJs = ''x := 1'',
             CodeLeading = False, CodeRun = False\<rparr> \<noteq> []"
  by code_simp

section \<open>The page cache\<close>

lemma handleExample_frame:
  "exampleIndexes (snd (handleExample env root path st)) = exampleIndexes st"
  "length (heap (snd (handleExample env root path st))) = length (heap st)"
  by (simp_all add: handleExample_def split: option.splits sum.splits)

lemma handleExample_wf:
  "wfCatalog st \<Longrightarrow> wfCatalog (snd (handleExample env root path st))"
  by (simp add: wfCatalog_def handleExample_frame)

text \<open>The catalog of \<^verbatim>\<open>renderIndex\<close> has every pointer of its map in the store.\<close>

lemma renderIndex_wf:
  assumes "\<forall>name\<in>set tutorial. 3 \<le> length name" "wfCatalog st"
  shows "wfCatalog (snd (renderIndex env tutorial st))"
proof (cases "indexTmpl env")
  case (Inl e)
  with assms(2) show ?thesis by (simp add: renderIndex_def)
next
  case (Inr execute)
  from buildCatalog_closed [OF assms(1), of "unicode_ToLower env" "heap st"] obtain l where
    "buildCatalog (unicode_ToLower env) tutorial (heap st) =
       Inr (heap st @ linked (unicode_ToLower env) (length (heap st)) None tutorial, l)"
    "\<forall>q a. indexes l q = Some a \<longrightarrow> a < length (heap st) + length tutorial"
    by blast
  with Inr show ?thesis by (simp add: renderIndex_def wfCatalog_def)
qed

text \<open>What \<^verbatim>\<open>renderIndex\<close> does when the template is there and no name is too short.\<close>

lemma renderIndex_catalog:
  assumes "indexTmpl env = Inr execute"
    and "buildCatalog (unicode_ToLower env) tutorial (heap st) = Inr (h, l)"
  shows "renderIndex env tutorial st =
           (execute h (examples l), \<lparr>heap = h, exampleIndexes = indexes l\<rparr>)"
  using assms by (simp add: renderIndex_def)

subsection \<open>Steps of a handler\<close>

text \<open>A handler that nothing interrupts: its three steps are \<^const>\<open>handleExample\<close>.\<close>

lemma handleExample_steps:
  "runHandlers root [(0, env), (0, env), (0, env)] ([Arrived path], st) =
     ([Finished (fst (handleExample env root path st))], snd (handleExample env root path st))"
  by (simp add: handleExample_def hStep_def hLoad_def hBuild_def hStore_def
           split: option.splits sum.splits)

lemma hStep_frame:
  "exampleIndexes (snd (hStep env root h st)) = exampleIndexes st"
  "length (heap (snd (hStep env root h st))) = length (heap st)"
  by (simp_all add: hStep_def hStore_def split: hstate.splits)








subsection \<open>Schedules\<close>

lemma runHandlers_length [simp]:
  "length (fst (runHandlers root sched (ths, st))) = length ths"
proof (induction sched arbitrary: ths st)
  case Nil
  show ?case by simp
next
  case (Cons a sched)
  obtain t env where a: "a = (t, env)" by (cases a)
  show ?case
    using Cons.IH by (simp add: a split: prod.splits)
qed

lemma runHandlers_map [simp]:
  "exampleIndexes (snd (runHandlers root sched (ths, st))) = exampleIndexes st"
proof (induction sched arbitrary: ths st)
  case Nil
  show ?case by simp
next
  case (Cons a sched)
  obtain t env where a: "a = (t, env)" by (cases a)
  show ?case
  proof (cases "t < length ths")
    case False
    with Cons.IH show ?thesis by (simp add: a)
  next
    case True
    obtain h st' where s: "hStep env root (ths ! t) st = (h, st')"
      by (cases "hStep env root (ths ! t) st")
    with hStep_frame(1) [of env root "ths ! t" st] have "exampleIndexes st' = exampleIndexes st"
      by simp
    with Cons.IH [of "ths[t := h]" st'] True s show ?thesis by (simp add: a)
  qed
qed







text \<open>
  Where a build fails: the directory cannot be read, a file of it cannot be read or
  rendered, or the page template fails. Each of them is a panic of the whole build.
\<close>

lemma buildExampleCache_fails:
  "(buildExampleCache env h dir idx = Inl e) =
     (readDir env dir = Inl e \<or>
      (\<exists>fis. readDir env dir = Inr fis \<and>
         (parseFiles env dir fis = Inl e \<or>
          (\<exists>files. parseFiles env dir fis = Inr files \<and>
             exampleTmpl_Execute env h \<lparr>exampleIndex = idx, Files = files\<rparr> = Inl e))))"
  by (auto simp: buildExampleCache_def parseExample_def renderExample_def split: sum.splits)

lemma parseAndRenderSegs_read_fails:
  "readFile env sourcePath = Inl e \<Longrightarrow> parseAndRenderSegs env sourcePath = Inl e"
  by (simp add: parseAndRenderSegs_def mustReadFile_def)

lemma parseFiles_first_fails:
  "parseAndRenderSegs env (filepath_Join env dir fi) = Inl e \<Longrightarrow>
     parseFiles env dir (fi # rest) = Inl e"
  by simp

text \<open>
  Claim C9. Requests are served one at a time. If the build of a descriptor's page fails,
  the request panics and the state is what it was: nothing is published and the
  descriptor stays unbuilt. A later request for it builds again: when that build
  succeeds, its artifact is written and published.
\<close>

theorem failed_build_not_cached:
  assumes "exampleIndexes st path = Some idx" "cache (heap st ! idx) = None"
    and "buildExampleCache env (heap st) (filepath_Join env root (Name (heap st ! idx))) idx = Inl e"
  shows "handleExample env root path st = (Panicked e, st) \<and>
         cache (heap (snd (handleExample env root path st)) ! idx) = None \<and>
         (\<forall>env' c. idx < length (heap st) \<and>
            buildExampleCache env' (heap st) (filepath_Join env' root (Name (heap st ! idx))) idx
              = Inr c \<longrightarrow>
            (\<exists>st'. handleExample env' root path (snd (handleExample env root path st))
                     = (Written (data c), st') \<and>
                   cache (heap st' ! idx) = Some c))"
proof -
  from assms have 1: "handleExample env root path st = (Panicked e, st)"
    by (simp add: handleExample_def)
  moreover from 1 assms(2)
  have "cache (heap (snd (handleExample env root path st)) ! idx) = None" by simp
  moreover have "\<exists>st'. handleExample env' root path (snd (handleExample env root path st))
                     = (Written (data c), st') \<and> cache (heap st' ! idx) = Some c"
    if "idx < length (heap st)"
      "buildExampleCache env' (heap st) (filepath_Join env' root (Name (heap st ! idx))) idx = Inr c"
    for env' c
    using 1 assms(1,2) that by (simp add: handleExample_def)
  ultimately show ?thesis by blast
qed

theorem failed_build_not_cached_witness:
  "exampleIndexes sampleState ''/channels'' = Some 0 \<and> cache (heap sampleState ! 0) = None \<and>
   buildExampleCache brokenEnv (heap sampleState)
     (filepath_Join brokenEnv ''.'' (Name (heap sampleState ! 0))) 0
     = Inl (ReadError ''./05-Channels'') \<and>
   handleExample brokenEnv ''.'' ''/channels'' sampleState
     = (Panicked (ReadError ''./05-Channels''), sampleState) \<and>
   fst (handleExample (textEnv ''x := 1'') ''.'' ''/channels''
          (snd (handleExample brokenEnv ''.'' ''/channels'' sampleState)))
     = Written ''x := 1''"
proof -
  have m: "exampleIndexes sampleState ''/channels'' = Some 0" by (simp add: sampleState_def)
  have u: "cache (heap sampleState ! 0) = None" by (simp add: sampleState_def)
  have b: "buildExampleCache brokenEnv (heap sampleState)
     (filepath_Join brokenEnv ''.'' (Name (heap sampleState ! 0))) 0
     = Inl (ReadError ''./05-Channels'')"
    by code_simp
  have i: "0 < length (heap sampleState)" by (simp add: sampleState_def)
  have g: "buildExampleCache (textEnv ''x := 1'') (heap sampleState)
     (filepath_Join (textEnv ''x := 1'') ''.'' (Name (heap sampleState ! 0))) 0
     = Inr \<lparr>data = ''x := 1''\<rparr>"
    by code_simp
  from failed_build_not_cached [OF m u b] i g
  have "handleExample brokenEnv ''.'' ''/channels'' sampleState
          = (Panicked (ReadError ''./05-Channels''), sampleState)"
    and "\<exists>st'. handleExample (textEnv ''x := 1'') ''.'' ''/channels''
                 (snd (handleExample brokenEnv ''.'' ''/channels'' sampleState))
               = (Written (data \<lparr>data = ''x := 1''\<rparr>), st')"
    by blast+
  with m u b show ?thesis by auto
qed

end
